theory Spec2Isabelle
  imports Main
begin

section \<open>JavaScript values\<close>

text \<open>
  The lockfile scanner of \<^verbatim>\<open>scan-lockfiles.js\<close>. A JavaScript string is modelled as a
  \<^typ>\<open>string\<close>, one \<^typ>\<open>char\<close> per code unit (code units 0 to 255). The values of
  \<^verbatim>\<open>JSON.parse\<close> are modelled by \<open>json\<close>. A number is held as the text
  \<^verbatim>\<open>String(x)\<close> gives for it (\<open>''0''\<close> for both zeros), which is all the scanner
  observes of a number: whether it is zero, and its text in a template literal. An
  object is held as its own properties in the order of \<^verbatim>\<open>Object.entries\<close>. What the
  program prints, and the limits of memory and of the call stack, are not modelled.
\<close>

datatype json =
    JNull
  | JBool bool
  | JNum string
  | JStr string
  | JArr "json list"
  | JObj "(string \<times> json) list"

datatype error = TypeError | SystemError

text \<open>\<^verbatim>\<open>if (x)\<close>, \<^verbatim>\<open>!x\<close>, \<^verbatim>\<open>x && y\<close>: the truthiness of a value.\<close>

fun truthy :: "json \<Rightarrow> bool" where
  "truthy JNull = False"
| "truthy (JBool b) = b"
| "truthy (JNum n) = (n \<noteq> ''0'' \<and> n \<noteq> ''NaN'')"
| "truthy (JStr s) = (s \<noteq> [])"
| "truthy (JArr xs) = True"
| "truthy (JObj ps) = True"

text \<open>
  \<^verbatim>\<open>x.p\<close> for \<open>p\<close> one of \<^verbatim>\<open>packages\<close>, \<^verbatim>\<open>dependencies\<close>, \<^verbatim>\<open>version\<close> and \<open>x\<close> not
  \<^verbatim>\<open>null\<close>: the own property of an object, and \<^verbatim>\<open>undefined\<close> (\<open>None\<close>) otherwise, since
  no prototype of a parsed value has a property of these names. On \<^verbatim>\<open>null\<close> the access
  throws; every access of the scanner but \<^verbatim>\<open>lockfile.packages\<close> stands behind a
  truthiness check of its receiver, and that one is a branch of \<open>scanJsonDocument\<close>.
\<close>

fun get :: "json \<Rightarrow> string \<Rightarrow> json option" where
  "get (JObj ps) p = map_of ps p"
| "get _ p = None"

fun digit_char :: "nat \<Rightarrow> char" where
  "digit_char d =
    (if d = 0 then CHR ''0'' else if d = 1 then CHR ''1'' else if d = 2 then CHR ''2''
     else if d = 3 then CHR ''3'' else if d = 4 then CHR ''4'' else if d = 5 then CHR ''5''
     else if d = 6 then CHR ''6'' else if d = 7 then CHR ''7'' else if d = 8 then CHR ''8''
     else CHR ''9'')"

fun show_nat :: "nat \<Rightarrow> string" where
  "show_nat n = (if n < 10 then [digit_char n] else show_nat (n div 10) @ [digit_char (n mod 10)])"

declare show_nat.simps [simp del]

text \<open>
  \<^verbatim>\<open>Object.entries(x)\<close> for a truthy \<open>x\<close>: the properties of an object, the elements of
  an array under their indices, the code units of a string under their indices, and
  nothing for a number or a boolean.
\<close>

fun entries :: "json \<Rightarrow> (string \<times> json) list" where
  "entries (JObj ps) = ps"
| "entries (JArr xs) = zip (map show_nat [0..<length xs]) xs"
| "entries (JStr s) = zip (map show_nat [0..<length s]) (map (\<lambda>c. JStr [c]) s)"
| "entries _ = []"

text \<open>
  \<^verbatim>\<open>`${x}`\<close>: the string of a value. An object with an own property \<^verbatim>\<open>toString\<close> has no
  callable \<^verbatim>\<open>toString\<close>, and \<^verbatim>\<open>Object.prototype.valueOf\<close> returns the object, so the
  conversion throws a TypeError (\<open>None\<close>); an array joins the strings of its elements
  with commas, \<^verbatim>\<open>null\<close> giving the empty string.
\<close>

fun toString :: "json \<Rightarrow> string option"
  and join :: "json list \<Rightarrow> string option"
where
  "toString JNull = Some ''null''"
| "toString (JBool b) = Some (if b then ''true'' else ''false'')"
| "toString (JNum n) = Some n"
| "toString (JStr s) = Some s"
| "toString (JObj ps) =
    (if ''toString'' \<in> fst ` set ps then None else Some ''[object Object]'')"
| "toString (JArr xs) = join xs"
| "join [] = Some []"
| "join (x # xs) =
    (case (if x = JNull then Some [] else toString x) of
       None \<Rightarrow> None
     | Some a \<Rightarrow>
        (if xs = [] then Some a
         else (case join xs of None \<Rightarrow> None | Some b \<Rightarrow> Some (a @ '','' @ b))))"

section \<open>The scanner's objects\<close>

text \<open>
  \<^verbatim>\<open>found.push({ packageName, version })\<close>: one reported package. The version is the
  value read from the lockfile, a string in every match.
\<close>

record match =
  packageName :: string
  version :: json

text \<open>
  The three objects the scanning functions share by reference: the index
  (\<^verbatim>\<open>Map<string, Set<string>>\<close>), the list of matches and the set of checked keys. Each
  function of the scanner takes the store and returns it as it left it; a function that
  can throw returns \<open>Inl\<close> with the error and the store at the throw.
\<close>

record store =
  affectedPackages :: "string \<rightharpoonup> string set"
  found :: "match list"
  checked :: "string set"

type_synonym outcome = "(error \<times> store) + store"

text \<open>\<^verbatim>\<open>affectedVersions.has(version)\<close>: the set holds strings, so only a string is a member.\<close>

fun has :: "string set \<Rightarrow> json \<Rightarrow> bool" where
  "has S (JStr v) = (v \<in> S)"
| "has S _ = False"

definition checkAndAddPackage :: "string \<Rightarrow> json \<Rightarrow> store \<Rightarrow> outcome" where
  "checkAndAddPackage name ver s =
    (case toString ver of
       None \<Rightarrow> Inl (TypeError, s)
     | Some v \<Rightarrow>
        (let key = name @ ''@'' @ v in
         if key \<in> checked s then Inr s
         else
          (let s1 = s\<lparr>checked := insert key (checked s)\<rparr> in
           case affectedPackages s1 name of
             None \<Rightarrow> Inr s1
           | Some affectedVersions \<Rightarrow>
              (if has affectedVersions ver
               then Inr (s1\<lparr>found := found s1 @ [\<lparr>packageName = name, version = ver\<rparr>]\<rparr>)
               else Inr s1))))"

section \<open>JSON lockfiles\<close>

text \<open>
  \<^verbatim>\<open>key.match(/node_modules\/(.+)$/)\<close>: the first capture of the leftmost match. The
  dot matches any code unit but a line terminator and \<^verbatim>\<open>$\<close> the end of the key, so a
  match starts at the first \<^verbatim>\<open>node_modules/\<close> whose rest of the key is not empty and has
  no line terminator.
\<close>

definition line_terminator :: "char \<Rightarrow> bool" where
  "line_terminator c = (c = CHR 0x0A \<or> c = CHR 0x0D)"

definition startsWith :: "string \<Rightarrow> string \<Rightarrow> bool" where
  "startsWith s p = (take (length p) s = p)"

fun match_node_modules :: "string \<Rightarrow> string option" where
  "match_node_modules [] = None"
| "match_node_modules (c # cs) =
    (let rest = drop (length ''node_modules/'') (c # cs) in
     if startsWith (c # cs) ''node_modules/'' \<and> rest \<noteq> [] \<and> \<not> list_ex line_terminator rest
     then Some rest
     else match_node_modules cs)"

text \<open>\<^verbatim>\<open>s.lastIndexOf(p)\<close>, with \<open>None\<close> for -1.\<close>

fun lastIndexOf :: "string \<Rightarrow> string \<Rightarrow> nat option" where
  "lastIndexOf [] p = (if p = [] then Some 0 else None)"
| "lastIndexOf (c # cs) p =
    (case lastIndexOf cs p of
       Some i \<Rightarrow> Some (Suc i)
     | None \<Rightarrow> if startsWith (c # cs) p then Some 0 else None)"

text \<open>Lines 81 to 92: the package name of a key of \<^verbatim>\<open>packages\<close>.\<close>

definition packageNameOfKey :: "string \<Rightarrow> string" where
  "packageNameOfKey key =
    (case match_node_modules key of
       None \<Rightarrow> key
     | Some name \<Rightarrow>
        (case lastIndexOf name ''node_modules/'' of
           None \<Rightarrow> name
         | Some lastNodeModules \<Rightarrow> drop (lastNodeModules + length ''node_modules/'') name))"

text \<open>Lines 74 to 98: the loop over \<^verbatim>\<open>Object.entries(lockfile.packages)\<close>.\<close>

fun scanPackages :: "(string \<times> json) list \<Rightarrow> store \<Rightarrow> outcome" where
  "scanPackages [] s = Inr s"
| "scanPackages ((key, val) # rest) s =
    (if \<not> truthy val then scanPackages rest s
     else case get val ''version'' of
       None \<Rightarrow> scanPackages rest s
     | Some ver \<Rightarrow>
        (if \<not> truthy ver then scanPackages rest s
         else if packageNameOfKey key = [] then scanPackages rest s
         else case checkAndAddPackage (packageNameOfKey key) ver s of
           Inl e \<Rightarrow> Inl e
         | Inr s' \<Rightarrow> scanPackages rest s'))"

text \<open>
  Lines 110 to 120: \<^verbatim>\<open>scanNpmV1Dependencies\<close> and its loop over
  \<^verbatim>\<open>Object.entries(deps)\<close>. The recursion ends because a value with a
  \<^verbatim>\<open>dependencies\<close> property is an object, and its properties are smaller than it;
  \<open>weight\<close> is the measure.
\<close>

fun weight :: "json \<Rightarrow> nat" where
  "weight (JObj ps) = 2 + sum_list (map (\<lambda>p. Suc (weight (snd p))) ps)"
| "weight (JArr xs) = 2 + sum_list (map (\<lambda>x. Suc (weight x)) xs)"
| "weight (JStr s) = 2 + length s"
| "weight _ = 2"

definition entries_weight :: "(string \<times> json) list \<Rightarrow> nat" where
  "entries_weight es =
    sum_list (map (\<lambda>p. Suc (case snd p of JObj ps \<Rightarrow> weight (JObj ps) | _ \<Rightarrow> 0)) es)"

lemma entries_weight_Cons:
  "entries_weight (p # es) =
    Suc (case snd p of JObj ps \<Rightarrow> weight (JObj ps) | _ \<Rightarrow> 0) + entries_weight es"
  by (simp add: entries_weight_def)

lemma entries_weight_le: "entries_weight es \<le> sum_list (map (\<lambda>p. Suc (weight (snd p))) es)"
  unfolding entries_weight_def
  by (induction es) (auto split: json.splits)

lemma entries_weight_zip:
  "length ks = length xs \<Longrightarrow> entries_weight (zip ks xs) \<le> sum_list (map (\<lambda>x. Suc (weight x)) xs)"
proof (induction ks xs rule: list_induct2)
  case Nil
  then show ?case by (simp add: entries_weight_def)
next
  case (Cons k ks x xs)
  then show ?case by (auto simp: entries_weight_Cons split: json.splits)
qed

lemma entries_weight_chars:
  "length ks = length s \<Longrightarrow> entries_weight (zip ks (map (\<lambda>c. JStr [c]) s)) = length s"
  by (induction ks s rule: list_induct2) (auto simp: entries_weight_Cons entries_weight_def)

lemma entries_weight_entries: "entries_weight (entries d) < weight d"
proof (cases d)
  case (JObj ps)
  then show ?thesis using entries_weight_le [of ps] by simp
next
  case (JArr xs)
  then show ?thesis using entries_weight_zip [of "map show_nat [0..<length xs]" xs] by simp
next
  case (JStr s)
  then show ?thesis using entries_weight_chars [of "map show_nat [0..<length s]" s] by simp
qed (simp_all add: entries_weight_def)

lemma weight_map_of:
  "map_of ps p = Some d \<Longrightarrow> weight d < sum_list (map (\<lambda>p. Suc (weight (snd p))) ps)"
  by (induction ps) (auto split: if_splits)

lemma weight_get:
  "get v p = Some d \<Longrightarrow> weight d < Suc ((case v of JObj ps \<Rightarrow> weight (JObj ps) | _ \<Rightarrow> 0) + n)"
  by (cases v) (auto dest: weight_map_of)

function scanNpmV1Dependencies :: "json \<Rightarrow> store \<Rightarrow> outcome"
  and scanDependencies :: "(string \<times> json) list \<Rightarrow> store \<Rightarrow> outcome"
where
  "scanNpmV1Dependencies deps s = scanDependencies (entries deps) s"
| "scanDependencies [] s = Inr s"
| "scanDependencies ((name, val) # rest) s =
    (case (if truthy val
           then (case get val ''version'' of
                   None \<Rightarrow> Inr s
                 | Some ver \<Rightarrow> if truthy ver then checkAndAddPackage name ver s else Inr s)
           else Inr s) of
       Inl e \<Rightarrow> Inl e
     | Inr s1 \<Rightarrow>
        (case (if truthy val
               then (case get val ''dependencies'' of
                       None \<Rightarrow> Inr s1
                     | Some d \<Rightarrow> if truthy d then scanNpmV1Dependencies d s1 else Inr s1)
               else Inr s1) of
           Inl e \<Rightarrow> Inl e
         | Inr s2 \<Rightarrow> scanDependencies rest s2))"
  by pat_completeness auto
termination
  by (relation "measure (\<lambda>x. case x of Inl (d, s) \<Rightarrow> weight d | Inr (es, s) \<Rightarrow> entries_weight es)")
     (auto simp: entries_weight_entries weight_get entries_weight_Cons)

text \<open>
  Lines 69 to 104, the body of the \<^verbatim>\<open>try\<close> after \<^verbatim>\<open>JSON.parse\<close>: both passes over the
  parsed document. \<^verbatim>\<open>lockfile.packages\<close> on \<^verbatim>\<open>null\<close> throws a TypeError.
\<close>

definition scanJsonDocument :: "json \<Rightarrow> store \<Rightarrow> outcome" where
  "scanJsonDocument lockfile s =
    (if lockfile = JNull then Inl (TypeError, s)
     else
      (case (case get lockfile ''packages'' of
               None \<Rightarrow> Inr s
             | Some packages \<Rightarrow> if truthy packages then scanPackages (entries packages) s else Inr s) of
         Inl e \<Rightarrow> Inl e
       | Inr s1 \<Rightarrow>
          (case get lockfile ''dependencies'' of
             None \<Rightarrow> Inr s1
           | Some dependencies \<Rightarrow>
              if truthy dependencies then scanNpmV1Dependencies dependencies s1 else Inr s1)))"

text \<open>
  The host of the program: \<^verbatim>\<open>readFileSync(path, 'utf-8')\<close> and \<^verbatim>\<open>JSON.parse\<close>, each a
  table from its argument to its result, \<open>None\<close> where the call throws; the arguments
  of the command line (\<^verbatim>\<open>process.argv.slice(2)\<close>); the path of the dataset beside the
  script; \<^verbatim>\<open>basename\<close> of the path module. The search for lockfiles on the disk
  (\<^verbatim>\<open>getLockfiles\<close>, lines 183 to 268) is not modelled: \<open>getLockfiles\<close> is the list it
  returns for a path argument on this disk, \<open>None\<close> where \<^verbatim>\<open>statSync\<close> throws.
\<close>

record host =
  readFileSync :: "string \<rightharpoonup> string"
  JSON_parse :: "string \<rightharpoonup> json"
  argv :: "string list"
  AFFECTED_PACKAGES_FILE :: string
  getLockfiles :: "string option \<rightharpoonup> string list"
  basename :: "string \<Rightarrow> string"

text \<open>
  Lines 67 to 108: \<^verbatim>\<open>scanJsonLockfile\<close>. The \<^verbatim>\<open>catch\<close> takes every error of the body and
  logs it; what was pushed before the throw stays in \<^verbatim>\<open>found\<close>.
\<close>

definition scanJsonLockfile :: "host \<Rightarrow> string \<Rightarrow> store \<Rightarrow> store" where
  "scanJsonLockfile h content s =
    (case JSON_parse h content of
       None \<Rightarrow> s
     | Some lockfile \<Rightarrow>
        (case scanJsonDocument lockfile s of
           Inl (e, s') \<Rightarrow> s'
         | Inr s' \<Rightarrow> s'))"

section \<open>Text lockfiles\<close>

text \<open>The classes of the regular expressions: \<^verbatim>\<open>\s\<close>, \<^verbatim>\<open>\w\<close>, and the two quotes.\<close>

definition is_space :: "char \<Rightarrow> bool" where
  "is_space c = (c \<in> {CHR 0x09, CHR 0x0A, CHR 0x0B, CHR 0x0C, CHR 0x0D, CHR 0x20, CHR 0xA0})"

definition is_word :: "char \<Rightarrow> bool" where
  "is_word c = (c \<in> set ''abcdefghijklmnopqrstuvwxyzABCDEFGHIJKLMNOPQRSTUVWXYZ0123456789_'')"

definition is_quote :: "char \<Rightarrow> bool" where
  "is_quote c = (c = CHR 0x27 \<or> c = CHR 0x22)"

text \<open>\<^verbatim>\<open>['"]?\<close>: one quote is taken when it is there.\<close>

fun skip_quote :: "string \<Rightarrow> string" where
  "skip_quote [] = []"
| "skip_quote (c # cs) = (if is_quote c then cs else c # cs)"

text \<open>
  \<^verbatim>\<open>/['"]?(@?[^@'"]+)@([^'":\s]+)['"]?:/\<close> at the start of \<open>s\<close>: the two captures and
  the text after the match. Every quantifier has one way to match: a run of a class is
  followed by a unit outside the class, so a shorter run never helps, and a quote or an
  \<^verbatim>\<open>@\<close> left to the next item fails there.
\<close>

definition name_unit :: "char \<Rightarrow> bool" where
  "name_unit c = (c \<noteq> CHR ''@'' \<and> \<not> is_quote c)"

definition version_unit :: "char \<Rightarrow> bool" where
  "version_unit c = (\<not> is_quote c \<and> c \<noteq> CHR '':'' \<and> \<not> is_space c)"

definition match_packageAtVersion :: "string \<Rightarrow> (string \<times> string \<times> string) option" where
  "match_packageAtVersion s =
    (let s1 = skip_quote s;
         scope = (if startsWith s1 ''@'' then ''@'' else []);
         s2 = drop (length scope) s1;
         name = takeWhile name_unit s2;
         s3 = dropWhile name_unit s2
     in if name = [] \<or> \<not> startsWith s3 ''@'' then None
        else
         (let s4 = drop 1 s3;
              ver = takeWhile version_unit s4;
              s5 = skip_quote (dropWhile version_unit s4)
          in if ver = [] \<or> \<not> startsWith s5 '':'' then None
             else Some (scope @ name, ver, drop 1 s5)))"

text \<open>\<^verbatim>\<open>packageAtVersionRegex.exec(content)\<close> from \<^verbatim>\<open>lastIndex\<close> on: the leftmost match.\<close>

fun exec_packageAtVersion :: "string \<Rightarrow> (string \<times> string \<times> string) option" where
  "exec_packageAtVersion [] = None"
| "exec_packageAtVersion (c # cs) =
    (case match_packageAtVersion (c # cs) of
       Some m \<Rightarrow> Some m
     | None \<Rightarrow> exec_packageAtVersion cs)"

lemma length_skip_quote: "length (skip_quote s) \<le> length s"
  by (cases s) auto

lemma match_packageAtVersion_shorter:
  assumes "match_packageAtVersion s = Some (name, ver, rest)"
  shows "length rest < length s"
proof -
  define s1 where "s1 = skip_quote s"
  define s2 where "s2 = drop (length (if startsWith s1 ''@'' then ''@'' else [])) s1"
  define s3 where "s3 = dropWhile name_unit s2"
  define s4 where "s4 = drop 1 s3"
  define s5 where "s5 = skip_quote (dropWhile version_unit s4)"
  from assms have r: "rest = drop 1 s5" and c: "startsWith s5 '':''"
    by (auto simp: match_packageAtVersion_def Let_def s1_def s2_def s3_def s4_def s5_def
             split: if_splits)
  from c have "s5 \<noteq> []" by (auto simp: startsWith_def)
  with r have "length rest < length s5" by (cases s5) auto
  also have "length s5 \<le> length s4"
    unfolding s5_def using length_skip_quote length_dropWhile_le le_trans by blast
  also have "length s4 \<le> length s3" by (simp add: s4_def)
  also have "length s3 \<le> length s2" by (simp add: s3_def length_dropWhile_le)
  also have "length s2 \<le> length s1" by (simp add: s2_def)
  also have "length s1 \<le> length s" by (simp add: s1_def length_skip_quote)
  finally show ?thesis .
qed

lemma exec_packageAtVersion_shorter:
  "exec_packageAtVersion s = Some (name, ver, rest) \<Longrightarrow> length rest < length s"
proof (induction s)
  case Nil
  then show ?case by simp
next
  case (Cons c cs)
  then show ?case
    by (auto split: option.splits dest: match_packageAtVersion_shorter)
qed

text \<open>Lines 129 to 133: the \<^verbatim>\<open>while\<close> loop over the matches of the first method.\<close>

function scanPackageAtVersion :: "string \<Rightarrow> store \<Rightarrow> outcome" where
  "scanPackageAtVersion content s =
    (case exec_packageAtVersion content of
       None \<Rightarrow> Inr s
     | Some (name, ver, rest) \<Rightarrow>
        (case checkAndAddPackage name (JStr ver) s of
           Inl e \<Rightarrow> Inl e
         | Inr s' \<Rightarrow> scanPackageAtVersion rest s'))"
  by pat_completeness auto
termination
  by (relation "measure (\<lambda>(content, s). length content)")
     (auto dest: exec_packageAtVersion_shorter)

declare scanPackageAtVersion.simps [simp del]

text \<open>
  \<^verbatim>\<open>line.match(/^\s+['"]?(@?[\w\-./]+)['"]?:\s*$/)\<close>: the capture, the name of a
  package of the importers section.
\<close>

definition key_unit :: "char \<Rightarrow> bool" where
  "key_unit c = (is_word c \<or> c = CHR ''-'' \<or> c = CHR ''.'' \<or> c = CHR ''/'')"

definition match_pkg :: "string \<Rightarrow> string option" where
  "match_pkg line =
    (let s1 = skip_quote (dropWhile is_space line);
         scope = (if startsWith s1 ''@'' then ''@'' else []);
         s2 = drop (length scope) s1;
         name = takeWhile key_unit s2;
         s3 = skip_quote (dropWhile key_unit s2)
     in if takeWhile is_space line = [] \<or> name = [] \<or> \<not> startsWith s3 '':''
           \<or> list_ex (\<lambda>c. \<not> is_space c) (drop 1 s3)
        then None
        else Some (scope @ name))"

text \<open>\<^verbatim>\<open>line.match(/^\s+version:\s*['"]?([^'"(\s]+)/)\<close>: the capture.\<close>

definition value_unit :: "char \<Rightarrow> bool" where
  "value_unit c = (\<not> is_quote c \<and> c \<noteq> CHR ''('' \<and> \<not> is_space c)"

definition match_version :: "string \<Rightarrow> string option" where
  "match_version line =
    (let s1 = dropWhile is_space line;
         s2 = skip_quote (dropWhile is_space (drop (length ''version:'') s1));
         ver = takeWhile value_unit s2
     in if takeWhile is_space line = [] \<or> \<not> startsWith s1 ''version:'' \<or> ver = []
        then None
        else Some ver)"

text \<open>\<^verbatim>\<open>line.match(/^\s+specifier:/)\<close>, as a truth value.\<close>

definition match_specifier :: "string \<Rightarrow> bool" where
  "match_specifier line =
    (takeWhile is_space line \<noteq> [] \<and> startsWith (dropWhile is_space line) ''specifier:'')"

text \<open>\<^verbatim>\<open>content.split('\n')\<close>.\<close>

fun split_lines :: "string \<Rightarrow> string list" where
  "split_lines [] = [[]]"
| "split_lines (c # cs) =
    (if c = CHR 0x0A then [] # split_lines cs
     else (case split_lines cs of
             [] \<Rightarrow> [[c]]
           | l # ls \<Rightarrow> (c # l) # ls))"

text \<open>
  Lines 139 to 164: the loop of the second method over the lines. \<open>currentPackage\<close> is
  \<open>None\<close> for \<^verbatim>\<open>null\<close>; a captured name is never empty, so it is truthy.
\<close>

fun scanImporters :: "string list \<Rightarrow> string option \<Rightarrow> store \<Rightarrow> outcome" where
  "scanImporters [] currentPackage s = Inr s"
| "scanImporters (line # lines) currentPackage s =
    (case match_pkg line of
       Some name \<Rightarrow> scanImporters lines (Some name) s
     | None \<Rightarrow>
        (case currentPackage of
           None \<Rightarrow> scanImporters lines None s
         | Some pkg \<Rightarrow>
            (case match_version line of
               Some ver \<Rightarrow>
                (case checkAndAddPackage pkg (JStr ver) s of
                   Inl e \<Rightarrow> Inl e
                 | Inr s' \<Rightarrow> scanImporters lines None s')
             | None \<Rightarrow>
                (if \<not> match_specifier line then scanImporters lines None s
                 else scanImporters lines (Some pkg) s))))"

text \<open>Lines 122 to 165: \<^verbatim>\<open>scanYamlLockfile\<close>, the first method and then the second.\<close>

definition scanYamlLockfile :: "string \<Rightarrow> store \<Rightarrow> outcome" where
  "scanYamlLockfile content s =
    (case scanPackageAtVersion content s of
       Inl e \<Rightarrow> Inl e
     | Inr s1 \<Rightarrow> scanImporters (split_lines content) None s1)"

section \<open>Scanning one lockfile\<close>

definition endsWith :: "string \<Rightarrow> string \<Rightarrow> bool" where
  "endsWith s p = (length p \<le> length s \<and> drop (length s - length p) s = p)"

text \<open>
  Lines 50 to 65: \<^verbatim>\<open>scanLockfile\<close>. It returns \<^verbatim>\<open>found\<close>, or throws; the second
  component is the index as the call leaves it.
\<close>

definition scanLockfile ::
  "host \<Rightarrow> string \<Rightarrow> (string \<rightharpoonup> string set) \<Rightarrow> (error + match list) \<times> (string \<rightharpoonup> string set)"
where
  "scanLockfile h lockfilePath affected =
    (case readFileSync h lockfilePath of
       None \<Rightarrow> (Inl SystemError, affected)
     | Some content \<Rightarrow>
        (let s0 = \<lparr>affectedPackages = affected, found = [], checked = {}\<rparr> in
         if endsWith lockfilePath ''.json''
         then (let s = scanJsonLockfile h content s0 in (Inr (found s), affectedPackages s))
         else (case scanYamlLockfile content s0 of
                 Inl (e, s) \<Rightarrow> (Inl e, affectedPackages s)
               | Inr s \<Rightarrow> (Inr (found s), affectedPackages s))))"

section \<open>The dataset\<close>

text \<open>\<^verbatim>\<open>s.trim()\<close>: white space and line terminators leave both ends.\<close>

definition trim :: "string \<Rightarrow> string" where
  "trim s = rev (dropWhile is_space (rev (dropWhile is_space s)))"

text \<open>
  \<^verbatim>\<open>/"([^"]+)";"([^"]+)"/\<close> at the start of \<open>s\<close>, and \<^verbatim>\<open>line.match\<close> of it: the two
  captures of the leftmost match.
\<close>

definition not_dquote :: "char \<Rightarrow> bool" where
  "not_dquote c = (c \<noteq> CHR 0x22)"

definition match_record_at :: "string \<Rightarrow> (string \<times> string) option" where
  "match_record_at s =
    (let name = takeWhile not_dquote (drop 1 s);
         s1 = dropWhile not_dquote (drop 1 s);
         ver = takeWhile not_dquote (drop 3 s1);
         s2 = dropWhile not_dquote (drop 3 s1)
     in if startsWith s [CHR 0x22] \<and> name \<noteq> [] \<and> startsWith s1 [CHR 0x22, CHR '';'', CHR 0x22]
           \<and> ver \<noteq> [] \<and> startsWith s2 [CHR 0x22]
        then Some (name, ver)
        else None)"

fun match_record :: "string \<Rightarrow> (string \<times> string) option" where
  "match_record [] = None"
| "match_record (c # cs) =
    (case match_record_at (c # cs) of
       Some m \<Rightarrow> Some m
     | None \<Rightarrow> match_record cs)"

text \<open>Lines 31 to 45: the loop over the lines after the header.\<close>

fun parseLines :: "string list \<Rightarrow> (string \<rightharpoonup> string set) \<Rightarrow> (string \<rightharpoonup> string set)" where
  "parseLines [] packages = packages"
| "parseLines (l # ls) packages =
    (let line = trim l in
     if line = [] then parseLines ls packages
     else case match_record line of
       None \<Rightarrow> parseLines ls packages
     | Some (name, ver) \<Rightarrow>
        parseLines ls
          (packages(name \<mapsto> insert ver (case packages name of None \<Rightarrow> {} | Some vs \<Rightarrow> vs))))"

text \<open>Lines 24 to 48: \<^verbatim>\<open>parseAffectedPackages\<close>. Reading the file can throw.\<close>

definition parseAffectedPackages :: "host \<Rightarrow> string \<Rightarrow> error + (string \<rightharpoonup> string set)" where
  "parseAffectedPackages h csvPath =
    (case readFileSync h csvPath of
       None \<Rightarrow> Inl SystemError
     | Some content \<Rightarrow> Inr (parseLines (drop 1 (split_lines (trim content))) Map.empty))"

section \<open>The run\<close>

text \<open>
  How the process ends: by \<^verbatim>\<open>process.exit(code)\<close>, with the results collected so far
  (\<^verbatim>\<open>allResults\<close>: the name of each lockfile with matches, and its matches), or by an
  error nothing catches. What the run prints is not modelled.
\<close>

datatype ending =
    Exited nat "(string \<times> match list) list"
  | Uncaught error

text \<open>Lines 354 to 374: the loop over the lockfiles.\<close>

fun scanAll ::
  "host \<Rightarrow> string list \<Rightarrow> (string \<rightharpoonup> string set) \<Rightarrow> nat \<Rightarrow> (string \<times> match list) list
    \<Rightarrow> error + nat \<times> (string \<times> match list) list"
where
  "scanAll h [] affected totalFound allResults = Inr (totalFound, allResults)"
| "scanAll h (lockfile # rest) affected totalFound allResults =
    (case scanLockfile h lockfile affected of
       (Inl e, affected') \<Rightarrow> Inl e
     | (Inr fs, affected') \<Rightarrow>
        (if length fs > 0
         then scanAll h rest affected' (totalFound + length fs)
                (allResults @ [(basename h lockfile, fs)])
         else scanAll h rest affected' totalFound allResults))"

text \<open>Lines 305 to 406: \<^verbatim>\<open>main\<close>.\<close>

definition main :: "host \<Rightarrow> ending" where
  "main h =
    (let args = argv h in
     if ''-h'' \<in> set args \<or> ''--help'' \<in> set args then Exited 0 []
     else
      (let pathArg = find (\<lambda>a. \<not> startsWith a ''-'') args in
       case parseAffectedPackages h (AFFECTED_PACKAGES_FILE h) of
         Inl e \<Rightarrow> Uncaught e
       | Inr affected \<Rightarrow>
          (case getLockfiles h pathArg of
             None \<Rightarrow> Uncaught SystemError
           | Some lockfiles \<Rightarrow>
              (if length lockfiles = 0 then Exited 1 []
               else case scanAll h lockfiles affected 0 [] of
                 Inl e \<Rightarrow> Uncaught e
               | Inr (totalFound, allResults) \<Rightarrow>
                  Exited (if totalFound > 0 then 1 else 0) allResults))))"

section \<open>The candidates of a scan\<close>

text \<open>
  A candidate is a pair of a name and a version that a scan passes to
  \<^verbatim>\<open>checkAndAddPackage\<close>. The functions below list the candidates of each loop of the
  scanner in the order of the calls, and \<open>checkAll\<close> makes the calls one after the other;
  each loop is then proved to be \<open>checkAll\<close> of its candidates.
\<close>

type_synonym candidate = "string \<times> json"

fun checkAll :: "candidate list \<Rightarrow> store \<Rightarrow> outcome" where
  "checkAll [] s = Inr s"
| "checkAll ((name, ver) # cs) s =
    (case checkAndAddPackage name ver s of
       Inl e \<Rightarrow> Inl e
     | Inr s' \<Rightarrow> checkAll cs s')"

fun packages_candidates :: "(string \<times> json) list \<Rightarrow> candidate list" where
  "packages_candidates [] = []"
| "packages_candidates ((key, val) # rest) =
    (if \<not> truthy val then packages_candidates rest
     else case get val ''version'' of
       None \<Rightarrow> packages_candidates rest
     | Some ver \<Rightarrow>
        (if \<not> truthy ver \<or> packageNameOfKey key = [] then packages_candidates rest
         else (packageNameOfKey key, ver) # packages_candidates rest))"

function dependencies_candidates :: "json \<Rightarrow> candidate list"
  and entries_candidates :: "(string \<times> json) list \<Rightarrow> candidate list"
where
  "dependencies_candidates deps = entries_candidates (entries deps)"
| "entries_candidates [] = []"
| "entries_candidates ((name, val) # rest) =
    (if truthy val
     then (case get val ''version'' of
             None \<Rightarrow> []
           | Some ver \<Rightarrow> if truthy ver then [(name, ver)] else [])
          @ (case get val ''dependencies'' of
               None \<Rightarrow> []
             | Some d \<Rightarrow> if truthy d then dependencies_candidates d else [])
     else [])
    @ entries_candidates rest"
  by pat_completeness auto
termination
  by (relation "measure (\<lambda>x. case x of Inl d \<Rightarrow> weight d | Inr es \<Rightarrow> entries_weight es)")
     (auto simp: entries_weight_entries weight_get entries_weight_Cons)

definition json_candidates :: "json \<Rightarrow> candidate list" where
  "json_candidates lockfile =
    (case get lockfile ''packages'' of
       None \<Rightarrow> []
     | Some packages \<Rightarrow> if truthy packages then packages_candidates (entries packages) else [])
    @ (case get lockfile ''dependencies'' of
         None \<Rightarrow> []
       | Some dependencies \<Rightarrow>
          if truthy dependencies then dependencies_candidates dependencies else [])"

function packageAtVersion_candidates :: "string \<Rightarrow> candidate list" where
  "packageAtVersion_candidates content =
    (case exec_packageAtVersion content of
       None \<Rightarrow> []
     | Some (name, ver, rest) \<Rightarrow> (name, JStr ver) # packageAtVersion_candidates rest)"
  by pat_completeness auto
termination
  by (relation "measure length") (auto dest: exec_packageAtVersion_shorter)

declare packageAtVersion_candidates.simps [simp del]

fun importers_candidates :: "string list \<Rightarrow> string option \<Rightarrow> candidate list" where
  "importers_candidates [] currentPackage = []"
| "importers_candidates (line # lines) currentPackage =
    (case match_pkg line of
       Some name \<Rightarrow> importers_candidates lines (Some name)
     | None \<Rightarrow>
        (case currentPackage of
           None \<Rightarrow> importers_candidates lines None
         | Some pkg \<Rightarrow>
            (case match_version line of
               Some ver \<Rightarrow> (pkg, JStr ver) # importers_candidates lines None
             | None \<Rightarrow>
                (if \<not> match_specifier line then importers_candidates lines None
                 else importers_candidates lines (Some pkg)))))"

definition yaml_candidates :: "string \<Rightarrow> candidate list" where
  "yaml_candidates content =
    packageAtVersion_candidates content @ importers_candidates (split_lines content) None"

definition candidates_of :: "host \<Rightarrow> string \<Rightarrow> string \<Rightarrow> candidate list" where
  "candidates_of h lockfilePath content =
    (if endsWith lockfilePath ''.json''
     then (case JSON_parse h content of None \<Rightarrow> [] | Some lockfile \<Rightarrow> json_candidates lockfile)
     else yaml_candidates content)"

section \<open>The matcher of the specification\<close>

text \<open>
  Section 4.5 of the specification: a candidate matches when the version set of its name
  in the index has its version; a candidate whose \<^verbatim>\<open>name@version\<close> key was seen before is
  dropped; the matches keep the order of the first occurrences. \<open>first_occurrences\<close>
  ends at a candidate whose version has no string, where the scan throws.
\<close>

definition affected_by :: "(string \<rightharpoonup> string set) \<Rightarrow> candidate \<Rightarrow> bool" where
  "affected_by index c = (case index (fst c) of None \<Rightarrow> False | Some vs \<Rightarrow> has vs (snd c))"

fun first_occurrences :: "string set \<Rightarrow> candidate list \<Rightarrow> candidate list" where
  "first_occurrences seen [] = []"
| "first_occurrences seen ((name, ver) # cs) =
    (case toString ver of
       None \<Rightarrow> []
     | Some v \<Rightarrow>
        (if name @ ''@'' @ v \<in> seen then first_occurrences seen cs
         else (name, ver) # first_occurrences (insert (name @ ''@'' @ v) seen) cs))"

definition to_match :: "candidate \<Rightarrow> match" where
  "to_match c = \<lparr>packageName = fst c, version = snd c\<rparr>"

definition matches :: "(string \<rightharpoonup> string set) \<Rightarrow> string set \<Rightarrow> candidate list \<Rightarrow> match list" where
  "matches index seen cs = map to_match (filter (affected_by index) (first_occurrences seen cs))"

definition store_of :: "outcome \<Rightarrow> store" where
  "store_of r = (case r of Inl (e, s) \<Rightarrow> s | Inr s \<Rightarrow> s)"

definition key_text :: "candidate \<Rightarrow> string" where
  "key_text c = fst c @ ''@'' @ (case toString (snd c) of None \<Rightarrow> [] | Some v \<Rightarrow> v)"

text \<open>A candidate whose version has a string: checking it does not throw.\<close>

definition printable :: "candidate \<Rightarrow> bool" where
  "printable c = (toString (snd c) \<noteq> None)"

text \<open>\<^verbatim>\<open>s.includes(p)\<close>: \<open>p\<close> stands somewhere in \<open>s\<close>.\<close>

fun contains :: "string \<Rightarrow> string \<Rightarrow> bool" where
  "contains [] p = (p = [])"
| "contains (c # cs) p = (startsWith (c # cs) p \<or> contains cs p)"

section \<open>Example inputs\<close>

text \<open>The lockfile of the two-line form, with the index that holds its package.\<close>

definition left_pad_index :: "string \<rightharpoonup> string set" where
  "left_pad_index = [''left-pad'' \<mapsto> {''1.3.0''}]"

definition pnpm_lock :: string where
  "pnpm_lock =
    ''  'left-pad':'' @ [CHR 0x0A] @
    ''    specifier: ^1.3.0'' @ [CHR 0x0A] @
    ''    version: 1.3.0''"

definition pnpm_host :: host where
  "pnpm_host =
    \<lparr>readFileSync = [''pnpm-lock.yaml'' \<mapsto> pnpm_lock], JSON_parse = Map.empty, argv = [],
     AFFECTED_PACKAGES_FILE = ''affected_packages.csv'', getLockfiles = Map.empty,
     basename = id\<rparr>"

text \<open>
  A lockfile of the nested form with two packages whose \<^verbatim>\<open>name@version\<close> keys are
  the same text, and an index that holds the second.
\<close>

definition collision_text :: string where
  \<open>collision_text = ''{"dependencies":{"a":{"version":"b@c"},"a@b":{"version":"c"}}}''\<close>

definition collision_lock :: json where
  "collision_lock =
    JObj [(''dependencies'',
      JObj [(''a'', JObj [(''version'', JStr ''b@c'')]),
            (''a@b'', JObj [(''version'', JStr ''c'')])])]"

definition collision_host :: host where
  "collision_host =
    \<lparr>readFileSync = [''package-lock.json'' \<mapsto> collision_text],
     JSON_parse = [collision_text \<mapsto> collision_lock], argv = [],
     AFFECTED_PACKAGES_FILE = ''affected_packages.csv'', getLockfiles = Map.empty,
     basename = id\<rparr>"

definition collision_index :: "string \<rightharpoonup> string set" where
  "collision_index = [''a@b'' \<mapsto> {''c''}]"

text \<open>A lockfile that lists one package in both forms.\<close>

definition twice_text :: string where
  \<open>twice_text =
    ''{"packages":{"node_modules/left-pad":{"version":"1.3.0"}},"dependencies":{"left-pad":{"version":"1.3.0"}}}''\<close>

definition twice_lock :: json where
  "twice_lock =
    JObj [(''packages'', JObj [(''node_modules/left-pad'', JObj [(''version'', JStr ''1.3.0'')])]),
          (''dependencies'', JObj [(''left-pad'', JObj [(''version'', JStr ''1.3.0'')])])]"

definition twice_host :: host where
  "twice_host =
    \<lparr>readFileSync = [''package-lock.json'' \<mapsto> twice_text],
     JSON_parse = [twice_text \<mapsto> twice_lock], argv = [],
     AFFECTED_PACKAGES_FILE = ''affected_packages.csv'', getLockfiles = Map.empty,
     basename = id\<rparr>"

text \<open>A lockfile that is not JSON: \<^verbatim>\<open>JSON.parse\<close> throws on it.\<close>

definition broken_host :: host where
  "broken_host =
    \<lparr>readFileSync = [''package-lock.json'' \<mapsto> ''{''], JSON_parse = Map.empty, argv = [],
     AFFECTED_PACKAGES_FILE = ''affected_packages.csv'', getLockfiles = Map.empty,
     basename = id\<rparr>"

text \<open>A lockfile of the flat form whose key has no \<^verbatim>\<open>node_modules/\<close> in it.\<close>

definition plain_text :: string where
  \<open>plain_text = ''{"packages":{"left-pad":{"version":"1.3.0"}}}''\<close>

definition plain_lock :: json where
  "plain_lock = JObj [(''packages'', JObj [(''left-pad'', JObj [(''version'', JStr ''1.3.0'')])])]"

definition plain_host :: host where
  "plain_host =
    \<lparr>readFileSync = [''package-lock.json'' \<mapsto> plain_text],
     JSON_parse = [plain_text \<mapsto> plain_lock], argv = [],
     AFFECTED_PACKAGES_FILE = ''affected_packages.csv'', getLockfiles = Map.empty,
     basename = id\<rparr>"

text \<open>A lockfile of the flat form whose key ends with \<^verbatim>\<open>node_modules/\<close>.\<close>

definition slash_text :: string where
  \<open>slash_text = ''{"packages":{"node_modules/":{"version":"1.0.0"}}}''\<close>

definition slash_lock :: json where
  "slash_lock = JObj [(''packages'', JObj [(''node_modules/'', JObj [(''version'', JStr ''1.0.0'')])])]"

definition slash_host :: host where
  "slash_host =
    \<lparr>readFileSync = [''package-lock.json'' \<mapsto> slash_text],
     JSON_parse = [slash_text \<mapsto> slash_lock], argv = [],
     AFFECTED_PACKAGES_FILE = ''affected_packages.csv'', getLockfiles = Map.empty,
     basename = id\<rparr>"

definition slash_index :: "string \<rightharpoonup> string set" where
  "slash_index = [''node_modules/'' \<mapsto> {''1.0.0''}]"

text \<open>The two packages with one \<^verbatim>\<open>name@version\<close> key, in the flat form.\<close>

definition flat_collision_text :: string where
  \<open>flat_collision_text =
    ''{"packages":{"node_modules/a":{"version":"b@c"},"node_modules/a@b":{"version":"c"}}}''\<close>

definition flat_collision_lock :: json where
  "flat_collision_lock =
    JObj [(''packages'',
      JObj [(''node_modules/a'', JObj [(''version'', JStr ''b@c'')]),
            (''node_modules/a@b'', JObj [(''version'', JStr ''c'')])])]"

definition flat_collision_host :: host where
  "flat_collision_host =
    \<lparr>readFileSync = [''package-lock.json'' \<mapsto> flat_collision_text],
     JSON_parse = [flat_collision_text \<mapsto> flat_collision_lock], argv = [],
     AFFECTED_PACKAGES_FILE = ''affected_packages.csv'', getLockfiles = Map.empty,
     basename = id\<rparr>"





text \<open>
  Four runs: one over a dataset that has its header and no record, one whose lockfile
  cannot be read, one whose dataset cannot be read, and one that finds no lockfile.
\<close>

definition header_text :: string where
  \<open>header_text = ''"Packages";"Version"''\<close>

definition dataset_text :: string where
  \<open>dataset_text = ''"Packages";"Version"'' @ [CHR 0x0A] @ ''"left-pad";"1.3.0"''\<close>

definition empty_dataset_host :: host where
  "empty_dataset_host =
    \<lparr>readFileSync = [''affected_packages.csv'' \<mapsto> header_text, ''package-lock.json'' \<mapsto> plain_text],
     JSON_parse = [plain_text \<mapsto> plain_lock], argv = [],
     AFFECTED_PACKAGES_FILE = ''affected_packages.csv'',
     getLockfiles = [None \<mapsto> [''package-lock.json'']],
     basename = id\<rparr>"

definition unreadable_lockfile_host :: host where
  "unreadable_lockfile_host =
    \<lparr>readFileSync = [''affected_packages.csv'' \<mapsto> dataset_text],
     JSON_parse = Map.empty, argv = [],
     AFFECTED_PACKAGES_FILE = ''affected_packages.csv'',
     getLockfiles = [None \<mapsto> [''package-lock.json'']],
     basename = id\<rparr>"

definition no_dataset_host :: host where
  "no_dataset_host =
    \<lparr>readFileSync = [''package-lock.json'' \<mapsto> plain_text],
     JSON_parse = [plain_text \<mapsto> plain_lock], argv = [],
     AFFECTED_PACKAGES_FILE = ''affected_packages.csv'',
     getLockfiles = [None \<mapsto> [''package-lock.json'']],
     basename = id\<rparr>"

definition no_lockfile_host :: host where
  "no_lockfile_host =
    \<lparr>readFileSync = [''affected_packages.csv'' \<mapsto> header_text],
     JSON_parse = Map.empty, argv = [],
     AFFECTED_PACKAGES_FILE = ''affected_packages.csv'',
     getLockfiles = [None \<mapsto> []],
     basename = id\<rparr>"

section \<open>Each loop checks its candidates in order\<close>

lemma store_of_simps [simp]: "store_of (Inl (e, s)) = s" "store_of (Inr s) = s"
  by (simp_all add: store_of_def)

lemma checkAll_append:
  "checkAll (xs @ ys) s = (case checkAll xs s of Inl e \<Rightarrow> Inl e | Inr s' \<Rightarrow> checkAll ys s')"
  by (induction xs arbitrary: s) (auto split: sum.splits)

lemma scanPackages_checkAll: "scanPackages es s = checkAll (packages_candidates es) s"
  by (induction es s rule: scanPackages.induct) (auto split: option.splits sum.splits)

lemma scanDependencies_checkAll:
  "scanNpmV1Dependencies deps s = checkAll (dependencies_candidates deps) s"
  "scanDependencies es s = checkAll (entries_candidates es) s"
proof (induction deps s and es s rule: scanNpmV1Dependencies_scanDependencies.induct)
  case (1 deps s)
  then show ?case by simp
next
  case (2 s)
  then show ?case by simp
next
  case (3 name val rest s)
  show ?case
  proof (cases "truthy val")
    case False
    with 3 show ?thesis by simp
  next
    case True
    show ?thesis using 3 True
      by (auto simp: checkAll_append split: option.splits sum.splits)
  qed
qed

lemma scanJsonDocument_checkAll:
  "scanJsonDocument lockfile s =
    (if lockfile = JNull then Inl (TypeError, s) else checkAll (json_candidates lockfile) s)"
  by (auto simp: scanJsonDocument_def json_candidates_def checkAll_append scanPackages_checkAll
        scanDependencies_checkAll split: option.splits sum.splits)

lemma scanPackageAtVersion_checkAll:
  "scanPackageAtVersion content s = checkAll (packageAtVersion_candidates content) s"
proof (induction content s rule: scanPackageAtVersion.induct)
  case (1 content s)
  show ?case
  proof (cases "exec_packageAtVersion content")
    case None
    then show ?thesis
      by (simp add: scanPackageAtVersion.simps [of content] packageAtVersion_candidates.simps [of content])
  next
    case (Some m)
    obtain name ver rest where m: "m = (name, ver, rest)" by (cases m) auto
    show ?thesis
      using 1 Some m
      by (auto simp: scanPackageAtVersion.simps [of content] packageAtVersion_candidates.simps [of content]
          split: sum.splits)
  qed
qed

lemma scanImporters_checkAll:
  "scanImporters lines cur s = checkAll (importers_candidates lines cur) s"
  by (induction lines cur s rule: scanImporters.induct) (auto split: option.splits sum.splits)

lemma scanYamlLockfile_checkAll:
  "scanYamlLockfile content s = checkAll (yaml_candidates content) s"
  by (simp add: scanYamlLockfile_def yaml_candidates_def checkAll_append
      scanPackageAtVersion_checkAll scanImporters_checkAll split: sum.splits)

lemma checkAll_index [simp]:
  "affectedPackages (store_of (checkAll cs s)) = affectedPackages s"
proof (induction cs arbitrary: s)
  case Nil
  then show ?case by simp
next
  case (Cons c cs)
  obtain name ver where c: "c = (name, ver)" by (cases c)
  show ?case
  proof (cases "checkAndAddPackage name ver s")
    case (Inl e)
    then show ?thesis using c
      by (auto simp: checkAndAddPackage_def Let_def split: option.splits if_splits)
  next
    case (Inr s')
    then have "affectedPackages s' = affectedPackages s"
      by (auto simp: checkAndAddPackage_def Let_def split: option.splits if_splits)
    with Cons [of s'] Inr c show ?thesis by simp
  qed
qed

lemma checkAll_found:
  "found (store_of (checkAll cs s)) = found s @ matches (affectedPackages s) (checked s) cs"
proof (induction cs arbitrary: s)
  case Nil
  then show ?case by (simp add: matches_def)
next
  case (Cons c cs)
  obtain name ver where c: "c = (name, ver)" by (cases c)
  show ?case
  proof (cases "toString ver")
    case None
    then show ?thesis using c by (simp add: checkAndAddPackage_def matches_def)
  next
    case (Some v)
    show ?thesis
    proof (cases "name @ ''@'' @ v \<in> checked s")
      case True
      then have "checkAndAddPackage name ver s = Inr s"
        using Some by (simp add: checkAndAddPackage_def)
      then show ?thesis using c Some True Cons [of s] by (simp add: matches_def)
    next
      case False
      define s' where "s' = store_of (checkAndAddPackage name ver s)"
      have r: "checkAndAddPackage name ver s = Inr s'"
        using Some False
        by (auto simp: s'_def checkAndAddPackage_def Let_def split: option.splits)
      have i: "affectedPackages s' = affectedPackages s"
        and k: "checked s' = insert (name @ ''@'' @ v) (checked s)"
        and f: "found s' = found s @ (if affected_by (affectedPackages s) (name, ver)
                  then [to_match (name, ver)] else [])"
        using Some False
        by (auto simp: s'_def checkAndAddPackage_def Let_def affected_by_def to_match_def
            split: option.splits)
      show ?thesis using c Some False r i k f Cons [of s'] by (simp add: matches_def)
    qed
  qed
qed

section \<open>First occurrences\<close>

lemma first_occurrences_sound:
  "c \<in> set (first_occurrences seen cs) \<Longrightarrow>
    c \<in> set cs \<and> toString (snd c) \<noteq> None \<and> key_text c \<notin> seen"
proof (induction cs arbitrary: seen)
  case Nil
  then show ?case by simp
next
  case (Cons d cs)
  obtain name ver where d: "d = (name, ver)" by (cases d)
  show ?case
  proof (cases "toString ver")
    case None
    with Cons.prems d show ?thesis by simp
  next
    case (Some v)
    show ?thesis
    proof (cases "name @ ''@'' @ v \<in> seen")
      case True
      with Cons.prems d Some have "c \<in> set (first_occurrences seen cs)" by simp
      from Cons.IH [OF this] show ?thesis by simp
    next
      case False
      with Cons.prems d Some
      consider "c = (name, ver)" | "c \<in> set (first_occurrences (insert (name @ ''@'' @ v) seen) cs)"
        by auto
      then show ?thesis
      proof cases
        case 1
        with Some False d show ?thesis by (simp add: key_text_def)
      next
        case 2
        from Cons.IH [OF this] show ?thesis by simp
      qed
    qed
  qed
qed

lemma first_occurrences_distinct_keys: "distinct (map key_text (first_occurrences seen cs))"
proof (induction cs arbitrary: seen)
  case Nil
  then show ?case by simp
next
  case (Cons d cs)
  obtain name ver where d: "d = (name, ver)" by (cases d)
  show ?case
  proof (cases "toString ver")
    case None
    with d show ?thesis by simp
  next
    case (Some v)
    have kt: "key_text (name, ver) = name @ ''@'' @ v"
      using Some by (simp add: key_text_def)
    have "key_text c \<noteq> key_text (name, ver)"
      if "c \<in> set (first_occurrences (insert (name @ ''@'' @ v) seen) cs)" for c
      using first_occurrences_sound [OF that] kt by auto
    then have "key_text (name, ver)
        \<notin> key_text ` set (first_occurrences (insert (name @ ''@'' @ v) seen) cs)"
      by force
    with d Some Cons.IH show ?thesis by simp
  qed
qed

lemma first_occurrences_distinct: "distinct (first_occurrences seen cs)"
  using first_occurrences_distinct_keys distinct_map by blast

lemma inj_to_match: "inj to_match"
  by (auto simp: inj_def to_match_def prod_eq_iff)

lemma matches_distinct: "distinct (matches index seen cs)"
  unfolding matches_def
  by (simp add: distinct_map first_occurrences_distinct inj_to_match [THEN inj_on_subset])

lemma matches_sound:
  assumes "m \<in> set (matches index seen cs)"
  shows "\<exists>vs v. index (packageName m) = Some vs \<and> version m = JStr v \<and> v \<in> vs"
proof -
  from assms obtain c where c: "m = to_match c" "affected_by index c"
    by (auto simp: matches_def)
  from c(2) obtain vs where vs: "index (fst c) = Some vs" "has vs (snd c)"
    by (auto simp: affected_by_def split: option.splits)
  from vs(2) obtain v where "snd c = JStr v" "v \<in> vs"
    by (cases "snd c") auto
  with c(1) vs(1) show ?thesis by (simp add: to_match_def)
qed

text \<open>A pair whose key was taken first by another pair is no first occurrence.\<close>

lemma first_occurrences_second:
  assumes "cs = pre @ c1 # post" "c2 \<notin> set pre" "c1 \<noteq> c2" "key_text c1 = key_text c2"
  shows "c2 \<notin> set (first_occurrences seen cs)"
  using assms(1,2)
proof (induction pre arbitrary: seen cs)
  case Nil
  obtain n1 v1 where c1: "c1 = (n1, v1)" by (cases c1)
  show ?case
  proof (cases "toString v1")
    case None
    with Nil c1 show ?thesis by simp
  next
    case (Some x)
    have k: "key_text c2 = n1 @ ''@'' @ x"
      using assms(4) c1 Some by (simp add: key_text_def)
    have "c2 \<notin> set (first_occurrences (insert (n1 @ ''@'' @ x) seen) post)"
      using first_occurrences_sound [of c2 "insert (n1 @ ''@'' @ x) seen" post] k by auto
    moreover have "n1 @ ''@'' @ x \<in> seen \<Longrightarrow> c2 \<notin> set (first_occurrences seen post)"
      using first_occurrences_sound [of c2 seen post] k by auto
    ultimately show ?thesis using Nil c1 Some assms(3) by auto
  qed
next
  case (Cons p pre)
  obtain n v where p: "p = (n, v)" by (cases p)
  from Cons.prems have ne: "c2 \<noteq> p" and rest: "c2 \<notin> set pre" by auto
  show ?case
  proof (cases "toString v")
    case None
    with Cons.prems p show ?thesis by simp
  next
    case (Some x)
    show ?thesis
      using Cons.prems(1) p Some ne Cons.IH [OF refl rest] by auto
  qed
qed

text \<open>The first pair of its key is a first occurrence, when every pair before it has a string.\<close>

lemma first_occurrences_complete:
  assumes "c \<in> set cs" "key_text c \<notin> seen"
    and "\<forall>d\<in>set cs. toString (snd d) \<noteq> None \<and> (key_text d = key_text c \<longrightarrow> d = c)"
  shows "c \<in> set (first_occurrences seen cs)"
  using assms
proof (induction cs arbitrary: seen)
  case Nil
  then show ?case by simp
next
  case (Cons d cs)
  obtain n v where d: "d = (n, v)" by (cases d)
  from Cons.prems(3) d obtain x where x: "toString v = Some x" by auto
  have kd: "key_text d = n @ ''@'' @ x" using d x by (simp add: key_text_def)
  show ?case
  proof (cases "d = c")
    case True
    with Cons.prems(2) kd d x show ?thesis by simp
  next
    case False
    with Cons.prems(1) have in_cs: "c \<in> set cs" by simp
    from False Cons.prems(3) have nk: "key_text d \<noteq> key_text c" by auto
    have all: "\<forall>d\<in>set cs. toString (snd d) \<noteq> None \<and> (key_text d = key_text c \<longrightarrow> d = c)"
      using Cons.prems(3) by simp
    have 1: "c \<in> set (first_occurrences seen cs)"
      using Cons.IH [OF in_cs Cons.prems(2) all] .
    have 2: "c \<in> set (first_occurrences (insert (n @ ''@'' @ x) seen) cs)"
      using Cons.IH [OF in_cs _ all] Cons.prems(2) nk kd by auto
    show ?thesis using d x 1 2 by simp
  qed
qed

lemma checkAndAddPackage_string:
  "toString ver = Some v \<Longrightarrow>
    checkAndAddPackage name ver s =
      Inr (if name @ ''@'' @ v \<in> checked s then s
           else s\<lparr>checked := insert (name @ ''@'' @ v) (checked s),
                  found := found s @ (if affected_by (affectedPackages s) (name, ver)
                                      then [to_match (name, ver)] else [])\<rparr>)"
  by (simp add: checkAndAddPackage_def Let_def affected_by_def to_match_def split: option.splits)

lemma checkAndAddPackage_throw:
  "toString ver = None \<Longrightarrow> checkAndAddPackage name ver s = Inl (TypeError, s)"
  by (simp add: checkAndAddPackage_def)

lemma checkAll_no_throw:
  "list_all printable cs \<Longrightarrow> \<exists>s'. checkAll cs s = Inr s'"
proof (induction cs arbitrary: s)
  case Nil
  then show ?case by simp
next
  case (Cons c cs)
  obtain name ver where c: "c = (name, ver)" by (cases c)
  from Cons.prems c obtain v where v: "toString ver = Some v" by (auto simp: printable_def)
  from Cons.prems have "list_all printable cs" by simp
  from Cons.IH [OF this] show ?case
    using c by (simp add: checkAndAddPackage_string [OF v])
qed

lemma packageAtVersion_candidates_printable:
  "list_all printable (packageAtVersion_candidates content)"
proof (induction content rule: packageAtVersion_candidates.induct)
  case (1 content)
  show ?case
  proof (cases "exec_packageAtVersion content")
    case None
    then show ?thesis by (simp add: packageAtVersion_candidates.simps [of content])
  next
    case (Some m)
    obtain name ver rest where m: "m = (name, ver, rest)" by (cases m) auto
    from 1 [OF Some m [symmetric] refl] Some m show ?thesis
      by (simp add: packageAtVersion_candidates.simps [of content] printable_def)
  qed
qed

lemma importers_candidates_printable:
  "list_all printable (importers_candidates lines cur)"
  by (induction lines cur rule: importers_candidates.induct)
     (simp_all add: printable_def split: option.split)

lemma yaml_candidates_printable: "list_all printable (yaml_candidates content)"
  by (simp add: yaml_candidates_def packageAtVersion_candidates_printable
      importers_candidates_printable)

lemma scanYamlLockfile_returns: "\<exists>s'. scanYamlLockfile content s = Inr s'"
  unfolding scanYamlLockfile_checkAll
  by (rule checkAll_no_throw) (rule yaml_candidates_printable)

text \<open>A candidate more, at the end: it is a first occurrence when its key is new.\<close>

lemma first_occurrences_snoc:
  "list_all printable (cs @ [c]) \<Longrightarrow>
    first_occurrences seen (cs @ [c]) =
      first_occurrences seen cs @ (if key_text c \<in> seen \<union> key_text ` set cs then [] else [c])"
proof (induction cs arbitrary: seen)
  case Nil
  obtain n v where c: "c = (n, v)" by (cases c)
  from Nil c obtain x where "toString v = Some x" by (auto simp: printable_def)
  with c show ?case by (simp add: key_text_def)
next
  case (Cons d cs)
  obtain n v where d: "d = (n, v)" by (cases d)
  from Cons.prems d obtain x where x: "toString v = Some x" by (auto simp: printable_def)
  from Cons.prems have rest: "list_all printable (cs @ [c])" by simp
  define k where "k = n @ ''@'' @ x"
  have kd: "key_text d = k" using d x by (simp add: key_text_def k_def)
  have step: "first_occurrences seen (d # ys) =
      (if k \<in> seen then first_occurrences seen ys else d # first_occurrences (insert k seen) ys)"
    for ys
    using d x by (simp add: k_def)
  show ?case
  proof (cases "k \<in> seen")
    case True
    then have "seen \<union> key_text ` set (d # cs) = seen \<union> key_text ` set cs"
      using kd by auto
    then show ?thesis
      using Cons.IH [OF rest, of seen] True step [of "cs @ [c]"] step [of cs] by simp
  next
    case False
    have "insert k seen \<union> key_text ` set cs = seen \<union> key_text ` set (d # cs)"
      using kd by auto
    then show ?thesis
      using Cons.IH [OF rest, of "insert k seen"] False step [of "cs @ [c]"] step [of cs] by simp
  qed
qed

lemma matches_snoc:
  "list_all printable (cs @ [c]) \<Longrightarrow>
    matches index {} (cs @ [c]) =
      matches index {} cs
        @ (if key_text c \<in> key_text ` set cs \<or> \<not> affected_by index c then [] else [to_match c])"
  by (simp add: matches_def first_occurrences_snoc)

section \<open>A scan reports the matches of its candidates\<close>

lemma scanJsonLockfile_store:
  "scanJsonLockfile h content s =
    (case JSON_parse h content of
       None \<Rightarrow> s
     | Some lockfile \<Rightarrow> store_of (checkAll (json_candidates lockfile) s))"
proof (cases "JSON_parse h content")
  case None
  then show ?thesis by (simp add: scanJsonLockfile_def)
next
  case (Some lockfile)
  have "json_candidates JNull = []" by (simp add: json_candidates_def)
  then show ?thesis using Some
    by (auto simp: scanJsonLockfile_def scanJsonDocument_checkAll store_of_def split: sum.splits)
qed

lemma scanLockfile_matches:
  "scanLockfile h lockfilePath index =
    (case readFileSync h lockfilePath of
       None \<Rightarrow> (Inl SystemError, index)
     | Some content \<Rightarrow> (Inr (matches index {} (candidates_of h lockfilePath content)), index))"
proof (cases "readFileSync h lockfilePath")
  case None
  then show ?thesis by (simp add: scanLockfile_def)
next
  case (Some content)
  define s0 where "s0 = \<lparr>affectedPackages = index, found = [], checked = {}\<rparr>"
  show ?thesis
  proof (cases "endsWith lockfilePath ''.json''")
    case True
    show ?thesis
    proof (cases "JSON_parse h content")
      case None
      with Some True show ?thesis
        by (simp add: scanLockfile_def scanJsonLockfile_store candidates_of_def matches_def)
    next
      case (Some lockfile)
      have "found (store_of (checkAll (json_candidates lockfile) s0))
          = matches index {} (json_candidates lockfile)"
        using checkAll_found [of "json_candidates lockfile" s0] by (simp add: s0_def)
      moreover have "affectedPackages (store_of (checkAll (json_candidates lockfile) s0)) = index"
        by (simp add: s0_def)
      ultimately show ?thesis using \<open>readFileSync h lockfilePath = Some content\<close> True Some
        by (simp add: scanLockfile_def scanJsonLockfile_store candidates_of_def s0_def Let_def)
    qed
  next
    case False
    obtain s' where s': "scanYamlLockfile content s0 = Inr s'"
      using scanYamlLockfile_returns by blast
    then have "s' = store_of (checkAll (yaml_candidates content) s0)"
      by (simp add: scanYamlLockfile_checkAll)
    then have "found s' = matches index {} (yaml_candidates content)" "affectedPackages s' = index"
      using checkAll_found [of "yaml_candidates content" s0] by (simp_all add: s0_def)
    with Some False s' show ?thesis
      by (simp add: scanLockfile_def candidates_of_def s0_def)
  qed
qed

lemma pnpm_candidates:
  "candidates_of pnpm_host ''pnpm-lock.yaml'' pnpm_lock = [(''left-pad'', JStr ''1.3.0'')]"
  by code_simp

lemma pnpm_scan:
  "scanLockfile pnpm_host ''pnpm-lock.yaml'' left_pad_index =
    (Inr [\<lparr>packageName = ''left-pad'', version = JStr ''1.3.0''\<rparr>], left_pad_index)"
proof -
  have "readFileSync pnpm_host ''pnpm-lock.yaml'' = Some pnpm_lock"
    by (simp add: pnpm_host_def)
  then show ?thesis
    by (simp add: scanLockfile_matches pnpm_candidates matches_def affected_by_def to_match_def
        left_pad_index_def)
qed

section \<open>Facts about single steps\<close>

lemma checkAndAddPackage_again:
  "checkAndAddPackage name ver s = Inr s' \<Longrightarrow> checkAndAddPackage name ver s' = Inr s'"
proof (cases "toString ver")
  case None
  assume "checkAndAddPackage name ver s = Inr s'"
  with None show ?thesis by (simp add: checkAndAddPackage_throw)
next
  case (Some v)
  assume "checkAndAddPackage name ver s = Inr s'"
  then have "name @ ''@'' @ v \<in> checked s'"
    by (auto simp: checkAndAddPackage_string [OF Some] split: if_splits)
  then show ?thesis by (simp add: checkAndAddPackage_string [OF Some])
qed

lemma packages_candidates_append:
  "packages_candidates (xs @ ys) = packages_candidates xs @ packages_candidates ys"
  by (induction xs rule: packages_candidates.induct) (simp_all split: option.split)

lemma match_node_modules_Nil: "packageNameOfKey [] = []"
  by (simp add: packageNameOfKey_def)

section \<open>The package name of a key\<close>

lemma startsWith_append: "startsWith (p @ s) p"
  by (simp add: startsWith_def)

lemma startsWith_head: "startsWith (a # s) (c # q) \<Longrightarrow> a = c"
  by (simp add: startsWith_def)

text \<open>A pattern whose first unit does not come again in it cannot overlap itself.\<close>

lemma no_overlap:
  assumes p: "p = c # q" "c \<notin> set q"
    and s: "startsWith (u @ p @ t) p"
  shows "u = [] \<or> length p \<le> length u"
proof (rule ccontr)
  assume "\<not> (u = [] \<or> length p \<le> length u)"
  then have u: "0 < length u" "length u < length p" by simp_all
  from s have "take (length p) (u @ p @ t) = p"
    by (simp add: startsWith_def)
  then have "take (length p) (u @ p @ t) ! length u = p ! length u"
    by simp
  moreover from u have "take (length p) (u @ p @ t) ! length u = (u @ p @ t) ! length u"
    by (simp only: nth_take)
  ultimately have "(u @ p @ t) ! length u = p ! length u"
    by simp
  then have "p ! length u = c"
    using p(1) by (simp add: nth_append)
  moreover from u p(1) have "p ! length u = q ! (length u - 1)"
    by (cases "length u") simp_all
  moreover have "q ! (length u - 1) \<in> set q"
  proof -
    from u p(1) have "length u - 1 < length q" by (cases u) simp_all
    then show ?thesis by (rule nth_mem)
  qed
  ultimately show False using p(2) by metis
qed

lemma drop_append_le: "n \<le> length xs \<Longrightarrow> drop n (xs @ ys) = drop n xs @ ys"
  by simp

lemma contains_skip:
  "p = c # q \<Longrightarrow> c \<notin> set u \<Longrightarrow> contains (u @ s) p = contains s p"
  by (induction u) (auto dest: startsWith_head)

lemma lastIndexOf_None: "\<not> contains s p \<Longrightarrow> lastIndexOf s p = None"
  by (induction s) auto

lemma lastIndexOf_at:
  assumes p: "p = c # q" "c \<notin> set q" and n: "\<not> contains name p"
  shows "lastIndexOf (p @ name) p = Some 0"
proof -
  have "\<not> contains (q @ name) p"
    using n contains_skip [OF p] by simp
  then have "lastIndexOf (q @ name) p = None"
    by (rule lastIndexOf_None)
  moreover have "startsWith (c # q @ name) p"
    using startsWith_append [of p name] p(1) by simp
  ultimately show ?thesis using p(1) by simp
qed

lemma lastIndexOf_last:
  assumes "p = c # q" "c \<notin> set q" "\<not> contains name p"
  shows "lastIndexOf (z @ p @ name) p = Some (length z)"
proof (induction z)
  case Nil
  then show ?case using lastIndexOf_at [OF assms] by simp
next
  case (Cons a z)
  then show ?case by simp
qed

lemma node_modules_head:
  "''node_modules/'' = CHR ''n'' # ''ode_modules/''" "CHR ''n'' \<notin> set ''ode_modules/''"
  by simp_all

lemma match_node_modules_contains:
  "match_node_modules key = Some g \<Longrightarrow> contains key ''node_modules/''"
  by (induction key) (auto simp: Let_def split: if_splits)

lemma packageNameOfKey_plain:
  "\<not> contains key ''node_modules/'' \<Longrightarrow> packageNameOfKey key = key"
  using match_node_modules_contains [of key]
  by (cases "match_node_modules key") (auto simp: packageNameOfKey_def)

lemma match_node_modules_last:
  assumes "name \<noteq> []" "\<not> list_ex line_terminator name"
  shows "\<exists>y. match_node_modules (pre @ ''node_modules/'' @ name) = Some (y @ name)
          \<and> (y = [] \<or> (\<exists>z. y = z @ ''node_modules/''))"
proof -
  define p where "p = ''node_modules/''"
  have p: "p = CHR ''n'' # ''ode_modules/''" "CHR ''n'' \<notin> set ''ode_modules/''"
    by (simp_all add: p_def)
  have step: "match_node_modules (c # cs) =
      (if startsWith (c # cs) p \<and> drop (length p) (c # cs) \<noteq> []
          \<and> \<not> list_ex line_terminator (drop (length p) (c # cs))
       then Some (drop (length p) (c # cs)) else match_node_modules cs)" for c cs
    by (simp add: p_def Let_def)
  have "\<exists>y. match_node_modules (pre @ p @ name) = Some (y @ name)
          \<and> (y = [] \<or> (\<exists>z. y = z @ p))"
  proof (induction pre)
    case Nil
    have "p @ name = CHR ''n'' # (''ode_modules/'' @ name)"
      using p(1) by simp
    then have "match_node_modules (p @ name) =
      (if startsWith (p @ name) p \<and> drop (length p) (p @ name) \<noteq> []
          \<and> \<not> list_ex line_terminator (drop (length p) (p @ name))
       then Some (drop (length p) (p @ name)) else match_node_modules (''ode_modules/'' @ name))"
      using step [of "CHR ''n''" "''ode_modules/'' @ name"] by simp
    then have "match_node_modules ([] @ p @ name) = Some ([] @ name)"
      using assms by (simp add: startsWith_append)
    then show ?case by blast
  next
    case (Cons a pre)
    let ?key = "(a # pre) @ p @ name"
    let ?rest = "drop (length p) ?key"
    have unfold: "match_node_modules ?key =
      (if startsWith ?key p \<and> ?rest \<noteq> [] \<and> \<not> list_ex line_terminator ?rest
       then Some ?rest else match_node_modules (pre @ p @ name))"
      using step [of a "pre @ p @ name"] by simp
    show ?case
    proof (cases "startsWith ?key p \<and> ?rest \<noteq> [] \<and> \<not> list_ex line_terminator ?rest")
      case True
      then have "length p \<le> length (a # pre)"
        using no_overlap [OF p, of "a # pre" name] by auto
      then have "?rest = (drop (length p) (a # pre) @ p) @ name"
        using drop_append_le [of "length p" "a # pre" "p @ name"] by simp
      moreover have "match_node_modules ?key = Some ?rest"
        by (rule trans [OF unfold if_P [OF True]])
      ultimately show ?thesis by metis
    next
      case False
      have "match_node_modules ?key = match_node_modules (pre @ p @ name)"
        by (rule trans [OF unfold if_not_P [OF False]])
      with Cons show ?thesis by simp
    qed
  qed
  then show ?thesis by (simp add: p_def)
qed

lemma packageNameOfKey_last:
  assumes "name \<noteq> []" "\<not> list_ex line_terminator name" "\<not> contains name ''node_modules/''"
  shows "packageNameOfKey (pre @ ''node_modules/'' @ name) = name"
proof -
  define p where "p = ''node_modules/''"
  have p: "p = CHR ''n'' # ''ode_modules/''" "CHR ''n'' \<notin> set ''ode_modules/''"
    by (simp_all add: p_def)
  have n: "\<not> contains name p" using assms(3) by (simp add: p_def)
  have unfold: "packageNameOfKey key =
    (case match_node_modules key of
       None \<Rightarrow> key
     | Some g \<Rightarrow> (case lastIndexOf g p of None \<Rightarrow> g | Some i \<Rightarrow> drop (i + length p) g))" for key
    by (simp only: packageNameOfKey_def p_def)
  from match_node_modules_last [OF assms(1,2), of pre] obtain y
    where m: "match_node_modules (pre @ p @ name) = Some (y @ name)"
      and y: "y = [] \<or> (\<exists>z. y = z @ p)"
    unfolding p_def by blast
  from y have "packageNameOfKey (pre @ p @ name) = name"
  proof
    assume "y = []"
    with m n show ?thesis
      by (simp add: unfold lastIndexOf_None)
  next
    assume "\<exists>z. y = z @ p"
    then obtain z where z: "y = z @ p" by blast
    have "lastIndexOf (y @ name) p = Some (length z)"
      using lastIndexOf_last [OF p n, of z] z by simp
    with m z show ?thesis by (simp add: unfold)
  qed
  then show ?thesis by (simp add: p_def)
qed

lemma scanPackages_step:
  "scanPackages ((key, val) # rest) s =
    (case get val ''version'' of
       None \<Rightarrow> scanPackages rest s
     | Some ver \<Rightarrow>
        if packageNameOfKey key = [] \<or> \<not> truthy val \<or> \<not> truthy ver then scanPackages rest s
        else (case checkAndAddPackage (packageNameOfKey key) ver s of
                Inl e \<Rightarrow> Inl e
              | Inr s' \<Rightarrow> scanPackages rest s'))"
  by (simp split: option.split)

lemma get_truthy: "get val p = Some x \<Longrightarrow> truthy val"
  by (cases val) simp_all

lemma packages_candidates_member:
  assumes "(key, val) \<in> set es" "get val ''version'' = Some ver" "truthy ver"
    and "packageNameOfKey key \<noteq> []"
  shows "(packageNameOfKey key, ver) \<in> set (packages_candidates es)"
  using assms(1)
proof (induction es)
  case Nil
  then show ?case by simp
next
  case (Cons e es)
  obtain k v where e: "e = (k, v)" by (cases e)
  show ?case
  proof (cases "e = (key, val)")
    case True
    with e assms get_truthy [OF assms(2)] show ?thesis by simp
  next
    case False
    with Cons have "(packageNameOfKey key, ver) \<in> set (packages_candidates es)" by simp
    then show ?thesis using e by (simp split: option.split)
  qed
qed

lemma json_candidates_packages:
  assumes "get lockfile ''packages'' = Some packages" "truthy packages"
  shows "set (packages_candidates (entries packages)) \<subseteq> set (json_candidates lockfile)"
  using assms by (simp add: json_candidates_def)

lemma count_list_distinct: "distinct xs \<Longrightarrow> x \<in> set xs \<Longrightarrow> count_list xs x = 1"
  by (induction xs) (auto simp: count_list_0_iff)

section \<open>The lines of the importers section\<close>











section \<open>The loop over the lockfiles\<close>

lemma scanLockfile_unreadable:
  "readFileSync h p = None \<Longrightarrow> scanLockfile h p index = (Inl SystemError, index)"
  by (simp add: scanLockfile_matches)

lemma scanAll_readable:
  "list_all (\<lambda>p. readFileSync h p \<noteq> None) ps \<Longrightarrow>
    \<exists>t r. scanAll h ps index totalFound allResults = Inr (t, r)"
proof (induction ps arbitrary: totalFound allResults)
  case Nil
  then show ?case by simp
next
  case (Cons p ps)
  then obtain content where c: "readFileSync h p = Some content" by auto
  from Cons.prems have rest: "list_all (\<lambda>p. readFileSync h p \<noteq> None) ps" by simp
  show ?case
    using Cons.IH [OF rest] by (simp add: scanLockfile_matches c)
qed

lemma scanAll_unreadable:
  "p \<in> set ps \<Longrightarrow> readFileSync h p = None \<Longrightarrow>
    scanAll h ps index totalFound allResults = Inl SystemError"
proof (induction ps arbitrary: totalFound allResults)
  case Nil
  then show ?case by simp
next
  case (Cons q ps)
  show ?case
  proof (cases "readFileSync h q")
    case None
    then show ?thesis by (simp add: scanLockfile_matches)
  next
    case (Some content)
    with Cons.prems have "p \<in> set ps" by auto
    from Cons.IH [OF this Cons.prems(2)] Some show ?thesis
      by (simp add: scanLockfile_matches)
  qed
qed

lemma matches_empty_index: "matches Map.empty seen cs = []"
  by (simp add: matches_def affected_by_def)

lemma scanAll_empty_index:
  "list_all (\<lambda>p. readFileSync h p \<noteq> None) ps \<Longrightarrow>
    scanAll h ps Map.empty totalFound allResults = Inr (totalFound, allResults)"
proof (induction ps)
  case Nil
  then show ?case by simp
next
  case (Cons p ps)
  then obtain content where c: "readFileSync h p = Some content" by auto
  from Cons show ?case
    by (simp add: scanLockfile_matches c matches_empty_index)
qed

lemma main_no_help:
  assumes "''-h'' \<notin> set (argv h)" "''--help'' \<notin> set (argv h)"
  shows "main h =
    (case parseAffectedPackages h (AFFECTED_PACKAGES_FILE h) of
       Inl e \<Rightarrow> Uncaught e
     | Inr affected \<Rightarrow>
        (case getLockfiles h (find (\<lambda>a. \<not> startsWith a ''-'') (argv h)) of
           None \<Rightarrow> Uncaught SystemError
         | Some lockfiles \<Rightarrow>
            (if lockfiles = [] then Exited 1 []
             else case scanAll h lockfiles affected 0 [] of
               Inl e \<Rightarrow> Uncaught e
             | Inr (totalFound, allResults) \<Rightarrow>
                Exited (if totalFound > 0 then 1 else 0) allResults)))"
  using assms by (simp add: main_def Let_def split: sum.split option.split)

section \<open>The example inputs, scanned\<close>

lemma collision_candidates:
  "candidates_of collision_host ''package-lock.json'' collision_text
    = [(''a'', JStr ''b@c''), (''a@b'', JStr ''c'')]"
  by (simp add: candidates_of_def collision_host_def endsWith_def json_candidates_def
      collision_lock_def)

lemma collision_read:
  "readFileSync collision_host ''package-lock.json'' = Some collision_text"
  by (simp add: collision_host_def)

lemma twice_read: "readFileSync twice_host ''package-lock.json'' = Some twice_text"
  by (simp add: twice_host_def)

lemma twice_candidates:
  "candidates_of twice_host ''package-lock.json'' twice_text
    = [(''left-pad'', JStr ''1.3.0''), (''left-pad'', JStr ''1.3.0'')]"
  by (simp add: candidates_of_def twice_host_def endsWith_def json_candidates_def twice_lock_def)
     code_simp

lemma plain_read: "readFileSync plain_host ''package-lock.json'' = Some plain_text"
  by (simp add: plain_host_def)

lemma plain_candidates:
  "candidates_of plain_host ''package-lock.json'' plain_text = [(''left-pad'', JStr ''1.3.0'')]"
  by (simp add: candidates_of_def plain_host_def endsWith_def json_candidates_def plain_lock_def)
     code_simp

lemma slash_read: "readFileSync slash_host ''package-lock.json'' = Some slash_text"
  by (simp add: slash_host_def)

lemma slash_candidates:
  "candidates_of slash_host ''package-lock.json'' slash_text = [(''node_modules/'', JStr ''1.0.0'')]"
  by (simp add: candidates_of_def slash_host_def endsWith_def json_candidates_def slash_lock_def)
     code_simp

lemma flat_collision_read:
  "readFileSync flat_collision_host ''package-lock.json'' = Some flat_collision_text"
  by (simp add: flat_collision_host_def)

lemma flat_collision_candidates:
  "candidates_of flat_collision_host ''package-lock.json'' flat_collision_text
    = [(''a'', JStr ''b@c''), (''a@b'', JStr ''c'')]"
  by (simp add: candidates_of_def flat_collision_host_def endsWith_def json_candidates_def
      flat_collision_lock_def) code_simp

lemma twice_entries:
  "get twice_lock ''packages''
    = Some (JObj [(''node_modules/left-pad'', JObj [(''version'', JStr ''1.3.0'')])])"
  by (simp add: twice_lock_def)

lemma header_parse:
  "parseAffectedPackages empty_dataset_host ''affected_packages.csv'' = Inr Map.empty"
proof -
  have "drop 1 (split_lines (trim header_text)) = []"
    by code_simp
  then show ?thesis
    by (simp add: parseAffectedPackages_def empty_dataset_host_def)
qed

lemma no_lockfile_parse:
  "parseAffectedPackages no_lockfile_host ''affected_packages.csv'' = Inr Map.empty"
proof -
  have "drop 1 (split_lines (trim header_text)) = []"
    by code_simp
  then show ?thesis
    by (simp add: parseAffectedPackages_def no_lockfile_host_def)
qed

lemma dataset_parse:
  "parseAffectedPackages unreadable_lockfile_host ''affected_packages.csv'' = Inr left_pad_index"
proof -
  have l: \<open>split_lines (trim dataset_text) = [''"Packages";"Version"'', ''"left-pad";"1.3.0"'']\<close>
    by code_simp
  have t: \<open>trim ''"left-pad";"1.3.0"'' = ''"left-pad";"1.3.0"''\<close>
    by code_simp
  have m: \<open>match_record ''"left-pad";"1.3.0"'' = Some (''left-pad'', ''1.3.0'')\<close>
    by code_simp
  have "parseLines (drop 1 (split_lines (trim dataset_text))) Map.empty = left_pad_index"
    by (simp add: l t m left_pad_index_def del: match_record.simps)
  then show ?thesis
    by (simp add: parseAffectedPackages_def unreadable_lockfile_host_def)
qed

section \<open>The claims\<close>

text \<open>
  C1. Matching soundness: a match in the list a scan returns has a name the index maps
  to a set of versions, and its version is a string of that set. So a name that is not
  in the index is never reported, and a name of the index is never reported with a
  version outside its set; the comparison is the equality of strings.
\<close>

theorem matching_soundness:
  assumes "scanLockfile h lockfilePath index = (Inr fs, index')" and "m \<in> set fs"
  shows "\<exists>vs v. index (packageName m) = Some vs \<and> version m = JStr v \<and> v \<in> vs"
proof -
  from assms(1) obtain content where "fs = matches index {} (candidates_of h lockfilePath content)"
    by (auto simp: scanLockfile_matches split: option.splits)
  with assms(2) show ?thesis using matches_sound by blast
qed

theorem matching_soundness_witness:
  "scanLockfile pnpm_host ''pnpm-lock.yaml'' left_pad_index =
      (Inr [\<lparr>packageName = ''left-pad'', version = JStr ''1.3.0''\<rparr>], left_pad_index)
   \<and> \<lparr>packageName = ''left-pad'', version = JStr ''1.3.0''\<rparr>
        \<in> set [\<lparr>packageName = ''left-pad'', version = JStr ''1.3.0''\<rparr>]
   \<and> (\<exists>vs v. left_pad_index ''left-pad'' = Some vs \<and> JStr ''1.3.0'' = JStr v \<and> v \<in> vs)"
  using matching_soundness [OF pnpm_scan, of "\<lparr>packageName = ''left-pad'', version = JStr ''1.3.0''\<rparr>"]
  by (simp add: pnpm_scan)

text \<open>
  C2, as amended. A key of \<^verbatim>\<open>packages\<close> with no \<^verbatim>\<open>node_modules/\<close> in it is the package
  name as it stands. Its entry is skipped when the key is empty, or the entry has no
  \<^verbatim>\<open>version\<close>, or the entry or its version is falsy; otherwise the pair of the key and
  the version is checked.
\<close>

theorem plain_key_is_the_name:
  assumes "\<not> contains key ''node_modules/''"
  shows "packageNameOfKey key = key
    \<and> scanPackages ((key, val) # rest) s =
        (case get val ''version'' of
           None \<Rightarrow> scanPackages rest s
         | Some ver \<Rightarrow>
            if key = [] \<or> \<not> truthy val \<or> \<not> truthy ver then scanPackages rest s
            else (case checkAndAddPackage key ver s of
                    Inl e \<Rightarrow> Inl e
                  | Inr s' \<Rightarrow> scanPackages rest s'))"
proof -
  have k: "packageNameOfKey key = key"
    using assms by (rule packageNameOfKey_plain)
  show ?thesis by (simp only: scanPackages_step k)
qed

theorem plain_key_is_the_name_witness:
  "\<not> contains ''left-pad'' ''node_modules/''
   \<and> packageNameOfKey ''left-pad'' = ''left-pad''
   \<and> scanPackages [(''left-pad'', JObj [(''version'', JStr ''1.3.0'')])]
        \<lparr>affectedPackages = left_pad_index, found = [], checked = {}\<rparr>
      = Inr \<lparr>affectedPackages = left_pad_index,
             found = [\<lparr>packageName = ''left-pad'', version = JStr ''1.3.0''\<rparr>],
             checked = {''left-pad@1.3.0''}\<rparr>"
proof -
  have c: "\<not> contains ''left-pad'' ''node_modules/''"
    by (simp add: startsWith_def)
  show ?thesis
    using plain_key_is_the_name [OF c, of "JObj [(''version'', JStr ''1.3.0'')]" "[]"
        "\<lparr>affectedPackages = left_pad_index, found = [], checked = {}\<rparr>"]
    by (simp add: checkAndAddPackage_def left_pad_index_def startsWith_def)
qed

text \<open>
  The claim C2 as it was stated fails: the key \<^verbatim>\<open>left-pad\<close> has no \<^verbatim>\<open>node_modules/\<close>
  in it, and its entry is a candidate that the scan reports.
\<close>

theorem plain_key_counterexample:
  "\<not> contains ''left-pad'' ''node_modules/''
   \<and> candidates_of plain_host ''package-lock.json'' plain_text = [(''left-pad'', JStr ''1.3.0'')]
   \<and> scanLockfile plain_host ''package-lock.json'' left_pad_index
       = (Inr [\<lparr>packageName = ''left-pad'', version = JStr ''1.3.0''\<rparr>], left_pad_index)"
proof -
  have "\<not> contains ''left-pad'' ''node_modules/''"
    by (simp add: startsWith_def)
  moreover have "scanLockfile plain_host ''package-lock.json'' left_pad_index
       = (Inr [\<lparr>packageName = ''left-pad'', version = JStr ''1.3.0''\<rparr>], left_pad_index)"
    by (simp add: scanLockfile_matches plain_read plain_candidates matches_def affected_by_def
        to_match_def left_pad_index_def)
  ultimately show ?thesis by (simp add: plain_candidates)
qed

text \<open>
  C3, as amended. When the text after the last \<^verbatim>\<open>node_modules/\<close> of a key is not
  empty and has no line terminator, it is the package name of the key, and an entry
  with a truthy version is checked under this name. An entry \<^verbatim>\<open>node_modules/n\<close> with
  the version \<^verbatim>\<open>v\<close> of a record of the index is reported exactly once, when every
  version among the candidates of the lockfile has a string and no other pair among
  them has the \<^verbatim>\<open>name@version\<close> key of the record.
\<close>

theorem nested_name_and_single_report:
  assumes "name \<noteq> []" and "\<not> list_ex line_terminator name"
    and "\<not> contains name ''node_modules/''"
  shows "packageNameOfKey (pre @ ''node_modules/'' @ name) = name
    \<and> (get val ''version'' = Some ver \<and> truthy ver \<longrightarrow>
        scanPackages ((pre @ ''node_modules/'' @ name, val) # rest) s =
          (case checkAndAddPackage name ver s of
             Inl e \<Rightarrow> Inl e
           | Inr s' \<Rightarrow> scanPackages rest s'))
    \<and> (JSON_parse h content = Some lockfile
        \<and> get lockfile ''packages'' = Some packages \<and> truthy packages
        \<and> (''node_modules/'' @ name, entry) \<in> set (entries packages)
        \<and> get entry ''version'' = Some (JStr v) \<and> v \<noteq> []
        \<and> index name = Some vs \<and> v \<in> vs
        \<and> (\<forall>c\<in>set (json_candidates lockfile).
              printable c \<and> (key_text c = name @ ''@'' @ v \<longrightarrow> c = (name, JStr v)))
       \<longrightarrow> count_list
             (found (scanJsonLockfile h content \<lparr>affectedPackages = index, found = [], checked = {}\<rparr>))
             \<lparr>packageName = name, version = JStr v\<rparr> = 1)"
proof -
  have k: "packageNameOfKey (pre @ ''node_modules/'' @ name) = name" for pre
    using assms by (rule packageNameOfKey_last)
  have step: "scanPackages ((pre @ ''node_modules/'' @ name, val) # rest) s =
          (case checkAndAddPackage name ver s of
             Inl e \<Rightarrow> Inl e
           | Inr s' \<Rightarrow> scanPackages rest s')"
    if "get val ''version'' = Some ver" "truthy ver"
    using that get_truthy [OF that(1)] assms(1)
    by (simp only: scanPackages_step k) simp
  have once: "count_list
             (found (scanJsonLockfile h content \<lparr>affectedPackages = index, found = [], checked = {}\<rparr>))
             \<lparr>packageName = name, version = JStr v\<rparr> = 1"
    if parse: "JSON_parse h content = Some lockfile"
      and pk: "get lockfile ''packages'' = Some packages" "truthy packages"
      and en: "(''node_modules/'' @ name, entry) \<in> set (entries packages)"
      and ve: "get entry ''version'' = Some (JStr v)" "v \<noteq> []"
      and ix: "index name = Some vs" "v \<in> vs"
      and al: "\<forall>c\<in>set (json_candidates lockfile).
              printable c \<and> (key_text c = name @ ''@'' @ v \<longrightarrow> c = (name, JStr v))"
  proof -
    let ?cs = "json_candidates lockfile"
    let ?s0 = "\<lparr>affectedPackages = index, found = [], checked = {}\<rparr>"
    have "packageNameOfKey (''node_modules/'' @ name) = name"
      using k [of "[]"] by simp
    then have "(name, JStr v) \<in> set (packages_candidates (entries packages))"
      using packages_candidates_member [OF en ve(1)] ve(2) assms(1) by simp
    then have mem: "(name, JStr v) \<in> set ?cs"
      using json_candidates_packages [OF pk] by blast
    have kt: "key_text (name, JStr v) = name @ ''@'' @ v"
      by (simp add: key_text_def)
    have "\<forall>d\<in>set ?cs. toString (snd d) \<noteq> None
            \<and> (key_text d = key_text (name, JStr v) \<longrightarrow> d = (name, JStr v))"
      using al by (simp add: printable_def kt)
    then have fo: "(name, JStr v) \<in> set (first_occurrences {} ?cs)"
      using first_occurrences_complete [OF mem] by simp
    have af: "affected_by index (name, JStr v)"
      using ix by (simp add: affected_by_def)
    have "(name, JStr v) \<in> set (filter (affected_by index) (first_occurrences {} ?cs))"
      unfolding set_filter using fo af by blast
    then have "to_match (name, JStr v)
        \<in> to_match ` set (filter (affected_by index) (first_occurrences {} ?cs))"
      by (rule imageI)
    then have "to_match (name, JStr v) \<in> set (matches index {} ?cs)"
      unfolding matches_def set_map .
    then have "count_list (matches index {} ?cs) (to_match (name, JStr v)) = 1"
      by (rule count_list_distinct [OF matches_distinct])
    moreover have "found (scanJsonLockfile h content ?s0) = matches index {} ?cs"
      using parse checkAll_found [of ?cs ?s0] by (simp add: scanJsonLockfile_store)
    ultimately show ?thesis by (simp add: to_match_def)
  qed
  show ?thesis
  proof (intro conjI impI)
    show "packageNameOfKey (pre @ ''node_modules/'' @ name) = name"
      by (rule k)
  next
    assume "get val ''version'' = Some ver \<and> truthy ver"
    then show "scanPackages ((pre @ ''node_modules/'' @ name, val) # rest) s =
          (case checkAndAddPackage name ver s of
             Inl e \<Rightarrow> Inl e
           | Inr s' \<Rightarrow> scanPackages rest s')"
      using step by simp
  next
    assume a: "JSON_parse h content = Some lockfile
        \<and> get lockfile ''packages'' = Some packages \<and> truthy packages
        \<and> (''node_modules/'' @ name, entry) \<in> set (entries packages)
        \<and> get entry ''version'' = Some (JStr v) \<and> v \<noteq> []
        \<and> index name = Some vs \<and> v \<in> vs
        \<and> (\<forall>c\<in>set (json_candidates lockfile).
              printable c \<and> (key_text c = name @ ''@'' @ v \<longrightarrow> c = (name, JStr v)))"
    show "count_list
             (found (scanJsonLockfile h content \<lparr>affectedPackages = index, found = [], checked = {}\<rparr>))
             \<lparr>packageName = name, version = JStr v\<rparr> = 1"
    proof (rule once)
      from a show "JSON_parse h content = Some lockfile" by (elim conjE)
      from a show "get lockfile ''packages'' = Some packages" by (elim conjE)
      from a show "truthy packages" by (elim conjE)
      from a show "(''node_modules/'' @ name, entry) \<in> set (entries packages)" by (elim conjE)
      from a show "get entry ''version'' = Some (JStr v)" by (elim conjE)
      from a show "v \<noteq> []" by (elim conjE)
      from a show "index name = Some vs" by (elim conjE)
      from a show "v \<in> vs" by (elim conjE)
      from a show "\<forall>c\<in>set (json_candidates lockfile).
              printable c \<and> (key_text c = name @ ''@'' @ v \<longrightarrow> c = (name, JStr v))"
        by (elim conjE)
    qed
  qed
qed

theorem nested_name_and_single_report_witness:
  "''left-pad'' \<noteq> [] \<and> \<not> list_ex line_terminator ''left-pad''
   \<and> \<not> contains ''left-pad'' ''node_modules/''
   \<and> packageNameOfKey (''node_modules/foo/'' @ ''node_modules/'' @ ''left-pad'') = ''left-pad''
   \<and> packageNameOfKey (''node_modules/foo/'' @ ''node_modules/'' @ ''bar'') = ''bar''
   \<and> packageNameOfKey ([] @ ''node_modules/'' @ ''@scope/pkg'') = ''@scope/pkg''
   \<and> get (JObj [(''version'', JStr ''1.3.0'')]) ''version'' = Some (JStr ''1.3.0'')
   \<and> truthy (JStr ''1.3.0'')
   \<and> scanPackages
        [(''node_modules/foo/'' @ ''node_modules/'' @ ''left-pad'', JObj [(''version'', JStr ''1.3.0'')])]
        \<lparr>affectedPackages = left_pad_index, found = [], checked = {}\<rparr>
      = Inr \<lparr>affectedPackages = left_pad_index,
             found = [\<lparr>packageName = ''left-pad'', version = JStr ''1.3.0''\<rparr>],
             checked = {''left-pad@1.3.0''}\<rparr>
   \<and> JSON_parse twice_host twice_text = Some twice_lock
   \<and> get twice_lock ''packages''
       = Some (JObj [(''node_modules/left-pad'', JObj [(''version'', JStr ''1.3.0'')])])
   \<and> left_pad_index ''left-pad'' = Some {''1.3.0''}
   \<and> json_candidates twice_lock = [(''left-pad'', JStr ''1.3.0''), (''left-pad'', JStr ''1.3.0'')]
   \<and> count_list
        (found (scanJsonLockfile twice_host twice_text
                  \<lparr>affectedPackages = left_pad_index, found = [], checked = {}\<rparr>))
        \<lparr>packageName = ''left-pad'', version = JStr ''1.3.0''\<rparr> = 1"
proof -
  let ?s0 = "\<lparr>affectedPackages = left_pad_index, found = [], checked = {}\<rparr>"
  have n: "''left-pad'' \<noteq> []" "\<not> list_ex line_terminator ''left-pad''"
    "\<not> contains ''left-pad'' ''node_modules/''"
    by (simp_all add: line_terminator_def startsWith_def)
  have b: "''bar'' \<noteq> []" "\<not> list_ex line_terminator ''bar''"
    "\<not> contains ''bar'' ''node_modules/''"
    by (simp_all add: line_terminator_def startsWith_def)
  have sc: "''@scope/pkg'' \<noteq> []" "\<not> list_ex line_terminator ''@scope/pkg''"
    "\<not> contains ''@scope/pkg'' ''node_modules/''"
    by (simp_all add: line_terminator_def startsWith_def)
  have p: "JSON_parse twice_host twice_text = Some twice_lock"
    by (simp add: twice_host_def)
  have c: "json_candidates twice_lock = [(''left-pad'', JStr ''1.3.0''), (''left-pad'', JStr ''1.3.0'')]"
    using twice_candidates by (simp add: candidates_of_def endsWith_def p)
  have i: "left_pad_index ''left-pad'' = Some {''1.3.0''}"
    by (simp add: left_pad_index_def)
  have a: "\<forall>c\<in>set (json_candidates twice_lock).
      printable c \<and> (key_text c = ''left-pad'' @ ''@'' @ ''1.3.0'' \<longrightarrow> c = (''left-pad'', JStr ''1.3.0''))"
    by (simp add: c printable_def)
  have e: "(''node_modules/'' @ ''left-pad'', JObj [(''version'', JStr ''1.3.0'')])
      \<in> set (entries (JObj [(''node_modules/left-pad'', JObj [(''version'', JStr ''1.3.0'')])]))"
    by simp
  have v: "get (JObj [(''version'', JStr ''1.3.0'')]) ''version'' = Some (JStr ''1.3.0'')"
    "''1.3.0'' \<noteq> []" "''1.3.0'' \<in> {''1.3.0''}"
    "truthy (JObj [(''node_modules/left-pad'', JObj [(''version'', JStr ''1.3.0'')])])"
    and tv: "truthy (JStr ''1.3.0'')"
    by simp_all
  have name: "packageNameOfKey (''node_modules/foo/'' @ ''node_modules/'' @ ''left-pad'') = ''left-pad''"
    using nested_name_and_single_report [OF n, of "''node_modules/foo/''"] by (rule conjunct1)
  have bar: "packageNameOfKey (''node_modules/foo/'' @ ''node_modules/'' @ ''bar'') = ''bar''"
    using nested_name_and_single_report [OF b, of "''node_modules/foo/''"] by (rule conjunct1)
  have scoped: "packageNameOfKey ([] @ ''node_modules/'' @ ''@scope/pkg'') = ''@scope/pkg''"
    using nested_name_and_single_report [OF sc, of "[]"] by (rule conjunct1)
  have hs: "get (JObj [(''version'', JStr ''1.3.0'')]) ''version'' = Some (JStr ''1.3.0'')
      \<and> truthy (JStr ''1.3.0'')"
    by simp
  have "scanPackages
        [(''node_modules/foo/'' @ ''node_modules/'' @ ''left-pad'', JObj [(''version'', JStr ''1.3.0'')])]
        ?s0
      = (case checkAndAddPackage ''left-pad'' (JStr ''1.3.0'') ?s0 of
           Inl e \<Rightarrow> Inl e
         | Inr s' \<Rightarrow> scanPackages [] s')"
    by (rule nested_name_and_single_report [OF n, THEN conjunct2, THEN conjunct1, THEN mp, OF hs])
  then have step: "scanPackages
        [(''node_modules/foo/'' @ ''node_modules/'' @ ''left-pad'', JObj [(''version'', JStr ''1.3.0'')])]
        ?s0
      = Inr \<lparr>affectedPackages = left_pad_index,
             found = [\<lparr>packageName = ''left-pad'', version = JStr ''1.3.0''\<rparr>],
             checked = {''left-pad@1.3.0''}\<rparr>"
    by (simp only: checkAndAddPackage_def) (simp add: left_pad_index_def)
  have once: "count_list
        (found (scanJsonLockfile twice_host twice_text ?s0))
        \<lparr>packageName = ''left-pad'', version = JStr ''1.3.0''\<rparr> = 1"
    by (rule nested_name_and_single_report [OF n, THEN conjunct2, THEN conjunct2, THEN mp])
       (intro conjI; (rule p twice_entries v e i a))
  from n name bar scoped v(1) tv step p twice_entries i c once show ?thesis
    by (simp only: simp_thms)
qed

text \<open>
  The claim C3 as it was stated fails twice. The key \<^verbatim>\<open>node_modules/\<close> has nothing
  after its last \<^verbatim>\<open>node_modules/\<close>, and the name of its candidate is the whole key.
  The record of the package \<^verbatim>\<open>a@b\<close> in the version \<^verbatim>\<open>c\<close> is in the index and the
  entry \<^verbatim>\<open>node_modules/a@b\<close> with this version is in the lockfile, and it is not
  reported, since the entry before it has the same \<^verbatim>\<open>name@version\<close> key.
\<close>

theorem nested_name_counterexample:
  "lastIndexOf ''node_modules/'' ''node_modules/'' = Some 0
   \<and> drop (0 + length ''node_modules/'') ''node_modules/'' = []
   \<and> candidates_of slash_host ''package-lock.json'' slash_text
       = [(''node_modules/'', JStr ''1.0.0'')]
   \<and> scanLockfile slash_host ''package-lock.json'' slash_index
       = (Inr [\<lparr>packageName = ''node_modules/'', version = JStr ''1.0.0''\<rparr>], slash_index)
   \<and> collision_index ''a@b'' = Some {''c''}
   \<and> get flat_collision_lock ''packages''
       = Some (JObj [(''node_modules/a'', JObj [(''version'', JStr ''b@c'')]),
                     (''node_modules/a@b'', JObj [(''version'', JStr ''c'')])])
   \<and> scanLockfile flat_collision_host ''package-lock.json'' collision_index
       = (Inr [], collision_index)"
proof -
  have 1: "lastIndexOf ''node_modules/'' ''node_modules/'' = Some 0"
    by (simp add: startsWith_def)
  have 2: "scanLockfile slash_host ''package-lock.json'' slash_index
       = (Inr [\<lparr>packageName = ''node_modules/'', version = JStr ''1.0.0''\<rparr>], slash_index)"
    by (simp add: scanLockfile_matches slash_read slash_candidates matches_def affected_by_def
        to_match_def slash_index_def)
  have 3: "scanLockfile flat_collision_host ''package-lock.json'' collision_index
       = (Inr [], collision_index)"
    by (simp add: scanLockfile_matches flat_collision_read flat_collision_candidates matches_def
        affected_by_def collision_index_def)
  have 4: "collision_index ''a@b'' = Some {''c''}"
    by (simp add: collision_index_def)
  have 5: "get flat_collision_lock ''packages''
       = Some (JObj [(''node_modules/a'', JObj [(''version'', JStr ''b@c'')]),
                     (''node_modules/a@b'', JObj [(''version'', JStr ''c'')])])"
    by (simp add: flat_collision_lock_def)
  from 1 2 3 4 5 show ?thesis by (simp add: slash_candidates)
qed

text \<open>
  C4, as amended. In a run without the help flag: when the dataset cannot be read, the
  run ends by the uncaught error, before any lockfile is looked for. When the dataset
  can be read, the search for lockfiles returns its list and every lockfile of the list
  can be read, the run ends by its exit, whatever the dataset and the lockfiles hold,
  malformed JSON included. When moreover the dataset has no record, the run reports
  nothing, and its exit code is 0 if the list has a lockfile and 1 if it has none.
\<close>

theorem dataset_load_failure_aborts:
  assumes "''-h'' \<notin> set (argv h)" and "''--help'' \<notin> set (argv h)"
  shows "(readFileSync h (AFFECTED_PACKAGES_FILE h) = None \<longrightarrow> main h = Uncaught SystemError)
    \<and> (readFileSync h (AFFECTED_PACKAGES_FILE h) = Some csv
        \<and> getLockfiles h (find (\<lambda>a. \<not> startsWith a ''-'') (argv h)) = Some lockfiles
        \<and> list_all (\<lambda>p. readFileSync h p \<noteq> None) lockfiles
       \<longrightarrow> (\<exists>code results. main h = Exited code results))
    \<and> (parseAffectedPackages h (AFFECTED_PACKAGES_FILE h) = Inr Map.empty
        \<and> getLockfiles h (find (\<lambda>a. \<not> startsWith a ''-'') (argv h)) = Some lockfiles
        \<and> list_all (\<lambda>p. readFileSync h p \<noteq> None) lockfiles
       \<longrightarrow> main h = Exited (if lockfiles = [] then 1 else 0) [])"
proof (intro conjI impI)
  assume "readFileSync h (AFFECTED_PACKAGES_FILE h) = None"
  then show "main h = Uncaught SystemError"
    by (simp add: main_no_help [OF assms] parseAffectedPackages_def)
next
  assume a: "readFileSync h (AFFECTED_PACKAGES_FILE h) = Some csv
        \<and> getLockfiles h (find (\<lambda>a. \<not> startsWith a ''-'') (argv h)) = Some lockfiles
        \<and> list_all (\<lambda>p. readFileSync h p \<noteq> None) lockfiles"
  then obtain index where i: "parseAffectedPackages h (AFFECTED_PACKAGES_FILE h) = Inr index"
    by (simp add: parseAffectedPackages_def)
  from a have "list_all (\<lambda>p. readFileSync h p \<noteq> None) lockfiles" by simp
  from scanAll_readable [OF this, of index 0 "[]"] obtain t r
    where "scanAll h lockfiles index 0 [] = Inr (t, r)" by blast
  with a i show "\<exists>code results. main h = Exited code results"
    by (simp add: main_no_help [OF assms])
next
  assume a: "parseAffectedPackages h (AFFECTED_PACKAGES_FILE h) = Inr Map.empty
        \<and> getLockfiles h (find (\<lambda>a. \<not> startsWith a ''-'') (argv h)) = Some lockfiles
        \<and> list_all (\<lambda>p. readFileSync h p \<noteq> None) lockfiles"
  then have "list_all (\<lambda>p. readFileSync h p \<noteq> None) lockfiles" by simp
  from scanAll_empty_index [OF this, of 0 "[]"] a
  show "main h = Exited (if lockfiles = [] then 1 else 0) []"
    by (simp add: main_no_help [OF assms])
qed

theorem dataset_load_failure_aborts_witness:
  "''-h'' \<notin> set (argv no_dataset_host) \<and> ''--help'' \<notin> set (argv no_dataset_host)
   \<and> readFileSync no_dataset_host (AFFECTED_PACKAGES_FILE no_dataset_host) = None
   \<and> main no_dataset_host = Uncaught SystemError
   \<and> ''-h'' \<notin> set (argv empty_dataset_host) \<and> ''--help'' \<notin> set (argv empty_dataset_host)
   \<and> parseAffectedPackages empty_dataset_host (AFFECTED_PACKAGES_FILE empty_dataset_host)
       = Inr Map.empty
   \<and> getLockfiles empty_dataset_host (find (\<lambda>a. \<not> startsWith a ''-'') (argv empty_dataset_host))
       = Some [''package-lock.json'']
   \<and> list_all (\<lambda>p. readFileSync empty_dataset_host p \<noteq> None) [''package-lock.json'']
   \<and> main empty_dataset_host = Exited 0 []
   \<and> readFileSync empty_dataset_host (AFFECTED_PACKAGES_FILE empty_dataset_host) = Some header_text
   \<and> (\<exists>code results. main empty_dataset_host = Exited code results)
   \<and> ''-h'' \<notin> set (argv no_lockfile_host) \<and> ''--help'' \<notin> set (argv no_lockfile_host)
   \<and> parseAffectedPackages no_lockfile_host (AFFECTED_PACKAGES_FILE no_lockfile_host)
       = Inr Map.empty
   \<and> getLockfiles no_lockfile_host (find (\<lambda>a. \<not> startsWith a ''-'') (argv no_lockfile_host))
       = Some []
   \<and> list_all (\<lambda>p. readFileSync no_lockfile_host p \<noteq> None) []
   \<and> main no_lockfile_host = Exited 1 []"
proof -
  have n: "''-h'' \<notin> set (argv no_dataset_host)" "''--help'' \<notin> set (argv no_dataset_host)"
    and nr: "readFileSync no_dataset_host (AFFECTED_PACKAGES_FILE no_dataset_host) = None"
    by (simp_all add: no_dataset_host_def)
  have e: "''-h'' \<notin> set (argv empty_dataset_host)" "''--help'' \<notin> set (argv empty_dataset_host)"
    and eg: "getLockfiles empty_dataset_host
        (find (\<lambda>a. \<not> startsWith a ''-'') (argv empty_dataset_host)) = Some [''package-lock.json'']"
    and er: "list_all (\<lambda>p. readFileSync empty_dataset_host p \<noteq> None) [''package-lock.json'']"
    and ef: "AFFECTED_PACKAGES_FILE empty_dataset_host = ''affected_packages.csv''"
    by (simp_all add: empty_dataset_host_def)
  have ep: "parseAffectedPackages empty_dataset_host (AFFECTED_PACKAGES_FILE empty_dataset_host)
       = Inr Map.empty"
    by (simp add: ef header_parse)
  have l: "''-h'' \<notin> set (argv no_lockfile_host)" "''--help'' \<notin> set (argv no_lockfile_host)"
    and lg: "getLockfiles no_lockfile_host
        (find (\<lambda>a. \<not> startsWith a ''-'') (argv no_lockfile_host)) = Some []"
    and lr: "list_all (\<lambda>p. readFileSync no_lockfile_host p \<noteq> None) []"
    and lf: "AFFECTED_PACKAGES_FILE no_lockfile_host = ''affected_packages.csv''"
    by (simp_all add: no_lockfile_host_def)
  have lp: "parseAffectedPackages no_lockfile_host (AFFECTED_PACKAGES_FILE no_lockfile_host)
       = Inr Map.empty"
    by (simp add: lf no_lockfile_parse)
  have c1: "main no_dataset_host = Uncaught SystemError"
    by (rule dataset_load_failure_aborts [OF n, THEN conjunct1, THEN mp, OF nr])
  have h3: "parseAffectedPackages empty_dataset_host (AFFECTED_PACKAGES_FILE empty_dataset_host)
       = Inr Map.empty
     \<and> getLockfiles empty_dataset_host (find (\<lambda>a. \<not> startsWith a ''-'') (argv empty_dataset_host))
       = Some [''package-lock.json'']
     \<and> list_all (\<lambda>p. readFileSync empty_dataset_host p \<noteq> None) [''package-lock.json'']"
    using ep eg er by (simp only: simp_thms)
  have ed: "readFileSync empty_dataset_host (AFFECTED_PACKAGES_FILE empty_dataset_host)
       = Some header_text"
    by (simp add: empty_dataset_host_def)
  have h2: "readFileSync empty_dataset_host (AFFECTED_PACKAGES_FILE empty_dataset_host)
       = Some header_text
     \<and> getLockfiles empty_dataset_host (find (\<lambda>a. \<not> startsWith a ''-'') (argv empty_dataset_host))
       = Some [''package-lock.json'']
     \<and> list_all (\<lambda>p. readFileSync empty_dataset_host p \<noteq> None) [''package-lock.json'']"
    using ed eg er by (simp only: simp_thms)
  have h4: "parseAffectedPackages no_lockfile_host (AFFECTED_PACKAGES_FILE no_lockfile_host)
       = Inr Map.empty
     \<and> getLockfiles no_lockfile_host (find (\<lambda>a. \<not> startsWith a ''-'') (argv no_lockfile_host))
       = Some []
     \<and> list_all (\<lambda>p. readFileSync no_lockfile_host p \<noteq> None) []"
    using lp lg lr by (simp only: simp_thms)
  have c2: "\<exists>code results. main empty_dataset_host = Exited code results"
    by (rule dataset_load_failure_aborts [OF e, THEN conjunct2, THEN conjunct1, THEN mp, OF h2])
  have c3: "main empty_dataset_host = Exited 0 []"
    using dataset_load_failure_aborts [OF e, THEN conjunct2, THEN conjunct2, THEN mp, OF h3]
    by simp
  have c4: "main no_lockfile_host = Exited 1 []"
    using dataset_load_failure_aborts [OF l, THEN conjunct2, THEN conjunct2, THEN mp, OF h4]
    by simp
  from n nr c1 e ep eg er c3 ed c2 l lp lg lr c4 show ?thesis
    by (simp only: simp_thms)
qed

text \<open>
  The claim C4 as it was stated fails twice: a dataset with no record does not abort
  the run, and a lockfile that cannot be read does.
\<close>

theorem dataset_load_failure_counterexample:
  "parseAffectedPackages empty_dataset_host (AFFECTED_PACKAGES_FILE empty_dataset_host) = Inr Map.empty
   \<and> main empty_dataset_host = Exited 0 []
   \<and> parseAffectedPackages unreadable_lockfile_host (AFFECTED_PACKAGES_FILE unreadable_lockfile_host)
       = Inr left_pad_index
   \<and> getLockfiles unreadable_lockfile_host None = Some [''package-lock.json'']
   \<and> readFileSync unreadable_lockfile_host ''package-lock.json'' = None
   \<and> main unreadable_lockfile_host = Uncaught SystemError"
proof -
  have f1: "AFFECTED_PACKAGES_FILE empty_dataset_host = ''affected_packages.csv''"
    and f2: "AFFECTED_PACKAGES_FILE unreadable_lockfile_host = ''affected_packages.csv''"
    by (simp_all add: empty_dataset_host_def unreadable_lockfile_host_def)
  have a1: "argv empty_dataset_host = []" "getLockfiles empty_dataset_host None = Some [''package-lock.json'']"
    "readFileSync empty_dataset_host ''package-lock.json'' = Some plain_text"
    by (simp_all add: empty_dataset_host_def)
  have a2: "argv unreadable_lockfile_host = []"
    "getLockfiles unreadable_lockfile_host None = Some [''package-lock.json'']"
    "readFileSync unreadable_lockfile_host ''package-lock.json'' = None"
    by (simp_all add: unreadable_lockfile_host_def)
  have m1: "main empty_dataset_host = Exited 0 []"
    by (simp add: main_def f1 header_parse a1 scanLockfile_matches matches_empty_index)
  have m2: "main unreadable_lockfile_host = Uncaught SystemError"
    by (simp add: main_def f2 dataset_parse a2 scanLockfile_matches)
  from m1 m2 a2 show ?thesis by (simp add: f1 f2 header_parse dataset_parse)
qed

text \<open>
  C5. Deduplication and order: the list a scan returns is the list of the first
  occurrences of the candidates, by their \<^verbatim>\<open>name@version\<close> key and in the order of
  extraction, filtered by the index. No match is in it twice. One candidate more at the
  end of the candidates adds its match at the end of the list when its key is new and
  the index holds it, and nothing otherwise. A candidate that was checked once is not
  checked again: a second call of \<^verbatim>\<open>checkAndAddPackage\<close> with the same pair returns
  the store as it is.
\<close>

theorem deduplication_and_order:
  assumes "readFileSync h lockfilePath = Some content"
  shows "scanLockfile h lockfilePath index
      = (Inr (matches index {} (candidates_of h lockfilePath content)), index)
    \<and> distinct (matches index {} (candidates_of h lockfilePath content))
    \<and> (list_all printable (cs @ [c]) \<longrightarrow>
        matches index {} (cs @ [c]) =
          matches index {} cs
            @ (if key_text c \<in> key_text ` set cs \<or> \<not> affected_by index c then []
               else [to_match c]))
    \<and> (checkAndAddPackage name ver s = Inr s' \<longrightarrow> checkAndAddPackage name ver s' = Inr s')"
proof (intro conjI impI)
  show "scanLockfile h lockfilePath index
      = (Inr (matches index {} (candidates_of h lockfilePath content)), index)"
    using assms by (simp add: scanLockfile_matches)
next
  show "distinct (matches index {} (candidates_of h lockfilePath content))"
    by (rule matches_distinct)
next
  assume "list_all printable (cs @ [c])"
  then show "matches index {} (cs @ [c]) =
          matches index {} cs
            @ (if key_text c \<in> key_text ` set cs \<or> \<not> affected_by index c then []
               else [to_match c])"
    by (rule matches_snoc)
next
  assume "checkAndAddPackage name ver s = Inr s'"
  then show "checkAndAddPackage name ver s' = Inr s'"
    by (rule checkAndAddPackage_again)
qed

theorem deduplication_and_order_witness:
  "readFileSync twice_host ''package-lock.json'' = Some twice_text
   \<and> candidates_of twice_host ''package-lock.json'' twice_text
      = [(''left-pad'', JStr ''1.3.0''), (''left-pad'', JStr ''1.3.0'')]
   \<and> scanLockfile twice_host ''package-lock.json'' left_pad_index
      = (Inr [\<lparr>packageName = ''left-pad'', version = JStr ''1.3.0''\<rparr>], left_pad_index)
   \<and> distinct [\<lparr>packageName = ''left-pad'', version = JStr ''1.3.0''\<rparr>]
   \<and> list_all printable ([(''left-pad'', JStr ''1.3.0'')] @ [(''left-pad'', JStr ''1.3.0'')])
   \<and> matches left_pad_index {} ([(''left-pad'', JStr ''1.3.0'')] @ [(''left-pad'', JStr ''1.3.0'')])
      = matches left_pad_index {} [(''left-pad'', JStr ''1.3.0'')] @ []
   \<and> checkAndAddPackage ''left-pad'' (JStr ''1.3.0'')
        \<lparr>affectedPackages = left_pad_index, found = [], checked = {}\<rparr>
      = Inr \<lparr>affectedPackages = left_pad_index,
             found = [\<lparr>packageName = ''left-pad'', version = JStr ''1.3.0''\<rparr>],
             checked = {''left-pad@1.3.0''}\<rparr>
   \<and> checkAndAddPackage ''left-pad'' (JStr ''1.3.0'')
        \<lparr>affectedPackages = left_pad_index,
          found = [\<lparr>packageName = ''left-pad'', version = JStr ''1.3.0''\<rparr>],
          checked = {''left-pad@1.3.0''}\<rparr>
      = Inr \<lparr>affectedPackages = left_pad_index,
             found = [\<lparr>packageName = ''left-pad'', version = JStr ''1.3.0''\<rparr>],
             checked = {''left-pad@1.3.0''}\<rparr>"
proof -
  let ?c = "(''left-pad'', JStr ''1.3.0'')"
  let ?s0 = "\<lparr>affectedPackages = left_pad_index, found = [], checked = {}\<rparr>"
  let ?s1 = "\<lparr>affectedPackages = left_pad_index,
             found = [\<lparr>packageName = ''left-pad'', version = JStr ''1.3.0''\<rparr>],
             checked = {''left-pad@1.3.0''}\<rparr>"
  note t = deduplication_and_order [OF twice_read, of left_pad_index "[?c]" ?c
      "''left-pad''" "JStr ''1.3.0''" ?s0 ?s1]
  have m: "matches left_pad_index {} [?c, ?c]
      = [\<lparr>packageName = ''left-pad'', version = JStr ''1.3.0''\<rparr>]"
    by (simp add: matches_def affected_by_def to_match_def left_pad_index_def)
  have p: "list_all printable ([?c] @ [?c])"
    by (simp add: printable_def)
  have k: "key_text ?c \<in> key_text ` set [?c]"
    by simp
  have c1: "checkAndAddPackage ''left-pad'' (JStr ''1.3.0'') ?s0 = Inr ?s1"
    by (simp add: checkAndAddPackage_def left_pad_index_def)
  have 1: "scanLockfile twice_host ''package-lock.json'' left_pad_index
      = (Inr [\<lparr>packageName = ''left-pad'', version = JStr ''1.3.0''\<rparr>], left_pad_index)"
    using t [THEN conjunct1] by (simp add: twice_candidates m)
  have 2: "distinct [\<lparr>packageName = ''left-pad'', version = JStr ''1.3.0''\<rparr>]"
    using t [THEN conjunct2, THEN conjunct1] by (simp add: twice_candidates m)
  have 3: "matches left_pad_index {} ([?c] @ [?c]) = matches left_pad_index {} [?c] @ []"
    using t [THEN conjunct2, THEN conjunct2, THEN conjunct1, THEN mp, OF p] k
    by (simp only: if_True simp_thms)
  have 4: "checkAndAddPackage ''left-pad'' (JStr ''1.3.0'') ?s1 = Inr ?s1"
    by (rule t [THEN conjunct2, THEN conjunct2, THEN conjunct2, THEN mp, OF c1])
  from twice_read twice_candidates 1 2 p 3 c1 4 show ?thesis
    by (simp only: simp_thms)
qed




text \<open>
  C7. Determinism: a scan leaves the index as it found it, and a second scan of the same
  lockfile, started with the index the first one left, returns what the first returned:
  the same matches in the same order.
\<close>

theorem scan_deterministic:
  "snd (scanLockfile h lockfilePath index) = index
   \<and> scanLockfile h lockfilePath (snd (scanLockfile h lockfilePath index))
      = scanLockfile h lockfilePath index"
proof -
  have "snd (scanLockfile h lockfilePath index) = index"
    by (simp add: scanLockfile_matches split: option.split)
  then show ?thesis by simp
qed

text \<open>
  C8. Malformed JSON: when \<^verbatim>\<open>JSON.parse\<close> throws on the content of a \<^verbatim>\<open>.json\<close>
  lockfile, \<^verbatim>\<open>scanJsonLockfile\<close> leaves the store as it is, \<^verbatim>\<open>scanLockfile\<close> returns
  the empty list without throwing, and the loop of the run goes on with the other
  lockfiles.
\<close>

theorem malformed_json_is_absorbed:
  assumes "readFileSync h lockfilePath = Some content"
    and "endsWith lockfilePath ''.json''"
    and "JSON_parse h content = None"
  shows "scanJsonLockfile h content s = s
    \<and> scanLockfile h lockfilePath index = (Inr [], index)
    \<and> scanAll h (lockfilePath # rest) index totalFound allResults
        = scanAll h rest index totalFound allResults"
proof -
  have 1: "scanJsonLockfile h content s = s"
    using assms(3) by (simp add: scanJsonLockfile_def)
  have 2: "scanLockfile h lockfilePath index = (Inr [], index)"
    using assms by (simp add: scanLockfile_matches candidates_of_def matches_def)
  from 1 2 show ?thesis by simp
qed

theorem malformed_json_is_absorbed_witness:
  "readFileSync broken_host ''package-lock.json'' = Some ''{''
   \<and> endsWith ''package-lock.json'' ''.json''
   \<and> JSON_parse broken_host ''{'' = None
   \<and> scanJsonLockfile broken_host ''{'' \<lparr>affectedPackages = left_pad_index, found = [], checked = {}\<rparr>
       = \<lparr>affectedPackages = left_pad_index, found = [], checked = {}\<rparr>
   \<and> scanLockfile broken_host ''package-lock.json'' left_pad_index = (Inr [], left_pad_index)
   \<and> scanAll broken_host [''package-lock.json''] left_pad_index 0 [] = Inr (0, [])"
proof -
  have r: "readFileSync broken_host ''package-lock.json'' = Some ''{''"
    and e: "endsWith ''package-lock.json'' ''.json''"
    and p: "JSON_parse broken_host ''{'' = None"
    by (simp_all add: broken_host_def endsWith_def)
  show ?thesis
    using malformed_json_is_absorbed [OF r e p,
        of "\<lparr>affectedPackages = left_pad_index, found = [], checked = {}\<rparr>" left_pad_index "[]" 0 "[]"]
    by (simp add: r e p)
qed

text \<open>
  C9. The root entry: an entry of \<^verbatim>\<open>packages\<close> whose key is the empty string is
  skipped, whatever its value and its version are: the scan of the entries is the scan
  of the entries without it, so it is never checked and never reported.
\<close>

theorem root_entry_skipped:
  "scanPackages (before @ ([], val) # after) s = scanPackages (before @ after) s"
  by (simp add: scanPackages_checkAll packages_candidates_append match_node_modules_Nil
      split: option.split)

text \<open>
  C10. The key of the deduplication is the text \<^verbatim>\<open>name@version\<close>, not the pair: when
  two different pairs have the same key and the one occurs among the candidates before
  the other does, the other is never reported, whether the index holds it or not, and a
  call of \<^verbatim>\<open>checkAndAddPackage\<close> for it in a store that has the key returns the store
  unchanged, without a look at the index.
\<close>

theorem key_collision:
  assumes "readFileSync h lockfilePath = Some content"
    and "candidates_of h lockfilePath content = before @ (n1, v1) # after"
    and "(n2, v2) \<notin> set before" and "(n1, v1) \<noteq> (n2, v2)"
    and "toString v1 = Some x1" and "toString v2 = Some x2"
    and "n1 @ ''@'' @ x1 = n2 @ ''@'' @ x2"
  shows "(\<exists>fs. scanLockfile h lockfilePath index = (Inr fs, index)
            \<and> \<lparr>packageName = n2, version = v2\<rparr> \<notin> set fs)
    \<and> (\<forall>s. n1 @ ''@'' @ x1 \<in> checked s \<longrightarrow> checkAndAddPackage n2 v2 s = Inr s)"
proof -
  have k: "key_text (n1, v1) = key_text (n2, v2)"
    using assms(5-7) by (simp add: key_text_def)
  have "(n2, v2) \<notin> set (first_occurrences {} (candidates_of h lockfilePath content))"
    using first_occurrences_second [OF assms(2) assms(3) assms(4) k] .
  then have "to_match (n2, v2) \<notin> set (matches index {} (candidates_of h lockfilePath content))"
    using inj_to_match by (auto simp: matches_def inj_def)
  then have 1: "\<exists>fs. scanLockfile h lockfilePath index = (Inr fs, index)
            \<and> \<lparr>packageName = n2, version = v2\<rparr> \<notin> set fs"
    using assms(1) by (simp add: scanLockfile_matches to_match_def)
  have 2: "\<forall>s. n1 @ ''@'' @ x1 \<in> checked s \<longrightarrow> checkAndAddPackage n2 v2 s = Inr s"
    using assms(7) by (simp add: checkAndAddPackage_string [OF assms(6)])
  from 1 2 show ?thesis by blast
qed

theorem key_collision_witness:
  "readFileSync collision_host ''package-lock.json'' = Some collision_text
   \<and> candidates_of collision_host ''package-lock.json'' collision_text
       = [] @ (''a'', JStr ''b@c'') # [(''a@b'', JStr ''c'')]
   \<and> (''a@b'', JStr ''c'') \<notin> set []
   \<and> (''a'', JStr ''b@c'') \<noteq> (''a@b'', JStr ''c'')
   \<and> toString (JStr ''b@c'') = Some ''b@c'' \<and> toString (JStr ''c'') = Some ''c''
   \<and> ''a'' @ ''@'' @ ''b@c'' = ''a@b'' @ ''@'' @ ''c''
   \<and> affected_by collision_index (''a@b'', JStr ''c'')
   \<and> scanLockfile collision_host ''package-lock.json'' collision_index = (Inr [], collision_index)
   \<and> checkAndAddPackage ''a@b'' (JStr ''c'')
        \<lparr>affectedPackages = collision_index, found = [], checked = {''a@b@c''}\<rparr>
      = Inr \<lparr>affectedPackages = collision_index, found = [], checked = {''a@b@c''}\<rparr>"
proof -
  have c: "candidates_of collision_host ''package-lock.json'' collision_text
       = [] @ (''a'', JStr ''b@c'') # [(''a@b'', JStr ''c'')]"
    by (simp add: collision_candidates)
  have s: "scanLockfile collision_host ''package-lock.json'' collision_index = (Inr [], collision_index)"
    by (simp add: scanLockfile_matches collision_read collision_candidates matches_def
        affected_by_def collision_index_def)
  have a: "affected_by collision_index (''a@b'', JStr ''c'')"
    by (simp add: affected_by_def collision_index_def)
  show ?thesis
    using key_collision [OF collision_read c, of "''a@b''" "JStr ''c''" "''b@c''" "''c''" collision_index]
    by (simp add: collision_read collision_candidates s a)
qed

end
